theory Spec2Isabelle
  imports Complex_Main "HOL-Library.Word" "HOL-Library.Log_Nat"
begin

section \<open>Numbers\<close>

text \<open>
  The reader works on Go's \<open>float64\<close>, \<open>uint32\<close>, \<open>uint\<close> and \<open>int\<close>.

  \<^item> A \<open>float64\<close> is a real number. The two operations from which \<open>State\<close> takes the record
    number, the difference \<open>et - ephemStart\<close> and its quotient by \<open>ephemStep\<close>, are rounded as
    IEEE 754 does (\<open>round64\<close>: to the nearest \<open>float64\<close>, ties to the even significand). Every
    other operation is idealised as exact. Results beyond the largest \<open>float64\<close>, infinities
    and NaN are not modelled, and a division by zero (an infinity in Go) is HOL's
    \<open>x / 0 = 0\<close>.
  \<^item> A \<open>float64\<close> that is only stored and byte-swapped (the coefficient cache) is kept as its
    IEEE-754 bit pattern, a \<open>64 word\<close>; \<open>float64_val\<close> gives the value of a pattern.
  \<^item> \<open>uint32\<close> is \<open>32 word\<close>. \<open>uint\<close> (64 bits) is a \<open>nat\<close> with the wrap-around written
    out by \<open>u64\<close> wherever the source computes with it.
  \<^item> \<open>int\<close> (64 bits) is \<open>int\<close>: the body codes are range-checked before any arithmetic on
    them, and the request flags are small.
\<close>

type_synonym float64 = real

definition float64_val :: "64 word \<Rightarrow> float64" where
  \<comment> \<open>\<open>math.Float64frombits\<close>: sign bit 63, biased exponent bits 52..62, fraction bits 0..51.\<close>
  "float64_val w =
     (let e = (unat w div 2 ^ 52) mod 2048;
          m = unat w mod 2 ^ 52;
          mag = (if e = 0 then real m / 2 ^ 1074 else real (2 ^ 52 + m) * 2 ^ e / 2 ^ 1075)
      in if unat w div 2 ^ 63 = 1 then - mag else mag)"

definition binade :: "real \<Rightarrow> int" where
  \<comment> \<open>The exponent \<open>e\<close> with \<open>2^e \<le> |x| < 2^(e+1)\<close>, for \<open>x \<noteq> 0\<close>, from the number of bits of
      the integer part of \<open>|x|\<close> or of \<open>1 / |x|\<close>.\<close>
  "binade x = (if 1 \<le> \<bar>x\<bar> then bitlen \<lfloor>\<bar>x\<bar>\<rfloor> - 1 else - bitlen (\<lceil>1 / \<bar>x\<bar>\<rceil> - 1))"

definition round_even :: "real \<Rightarrow> int" where
  \<comment> \<open>The nearest integer, the even one of the two when \<open>x\<close> is half-way.\<close>
  "round_even x =
     (let f = \<lfloor>x\<rfloor>; d = x - of_int f
      in if d < 1 / 2 then f else if 1 / 2 < d then f + 1 else if even f then f else f + 1)"

definition round64 :: "real \<Rightarrow> float64" where
  \<comment> \<open>The \<open>float64\<close> nearest to \<open>x\<close>: a significand of 53 bits, so a spacing of \<open>2^(e-52)\<close> in
      the binade \<open>e\<close>, and the spacing \<open>2^(-1074)\<close> of the subnormal numbers below \<open>2^(-1022)\<close>.\<close>
  "round64 x =
     (if x = 0 then 0
      else (let e = max (binade x) (- 1022); u = 2 powi (e - 52)
            in of_int (round_even (x / u)) * u))"

definition f64_sub :: "float64 \<Rightarrow> float64 \<Rightarrow> float64" where
  "f64_sub x y = round64 (x - y)"

definition f64_div :: "float64 \<Rightarrow> float64 \<Rightarrow> float64" where
  "f64_div x y = round64 (x / y)"

definition trunc :: "real \<Rightarrow> int" where
  \<comment> \<open>Rounding towards zero.\<close>
  "trunc x = (if 0 \<le> x then \<lfloor>x\<rfloor> else \<lceil>x\<rceil>)"

definition Modf :: "float64 \<Rightarrow> float64 \<times> float64" where
  \<comment> \<open>\<open>math.Modf\<close>: integer and fractional part, both with the sign of the argument.\<close>
  "Modf f = (of_int (trunc f), f - of_int (trunc f))"

definition u64 :: "nat \<Rightarrow> nat" where
  "u64 n = n mod 2 ^ 64"

definition uint_of_float :: "float64 \<Rightarrow> nat" where
  \<comment> \<open>\<open>uint(f)\<close>. Go leaves the result open when the truncated value is not a \<open>uint\<close>; the
      model wraps, as amd64 does for values of magnitude below \<open>2^63\<close>.\<close>
  "uint_of_float f = nat (trunc f mod 2 ^ 64)"

definition uint32_of_float :: "float64 \<Rightarrow> 32 word" where
  \<comment> \<open>\<open>uint32(f)\<close>, with the same convention outside \<open>[0, 2^32)\<close>.\<close>
  "uint32_of_float f = word_of_int (trunc f)"

definition uint_of_int :: "int \<Rightarrow> nat" where
  \<comment> \<open>\<open>uint(i)\<close> for an \<open>int\<close>: two's complement.\<close>
  "uint_of_int i = nat (i mod 2 ^ 64)"

section \<open>Errors and panics\<close>

datatype error =
    ErrQuantityNotInEphemeris
  | ErrInvalidIndex
  | ErrOutsideRange
  | ErrFileSeek
  | ErrFileRead

datatype panic =
    PanicNcf      \<comment> \<open>\<open>panic("ncf must be less than maxCheby")\<close>\<close>
  | PanicTc       \<comment> \<open>\<open>panic("tc must be between -1 and 1")\<close>\<close>
  | PanicIndex    \<comment> \<open>Go's run-time panic for an index or a slice bound out of range\<close>

section \<open>The Chebyshev interpolator\<close>

definition maxCheby :: nat where
  "maxCheby = 18"

record interpolationInfo =
  posnCoeff :: "float64 list"
  velCoeff :: "float64 list"
  nPosnAvail :: nat
  nVelAvail :: nat
  twot :: float64

definition interp_l_tc :: "nat \<Rightarrow> float64 \<Rightarrow> nat \<times> float64" where
  \<comment> \<open>The sub-interval index \<open>l\<close> and the normalised time \<open>tc\<close> of \<open>interp\<close>, after the
      adjustment for \<open>t[0] = 1\<close>.\<close>
  "interp_l_tc na t0 =
     (let dna = real na;
          temp = dna * t0;
          (intPart, fracPart) = Modf temp;
          l = uint_of_float intPart;
          tc = 2 * fracPart - 1
      in if l = na then (u64 (l + (2 ^ 64 - 1)), 1) else (l, tc))"

definition posn_recur :: "float64 \<Rightarrow> nat \<Rightarrow> float64 list \<Rightarrow> float64 list" where
  \<comment> \<open>\<open>for i = 2; i < ncf; i++ { posnCoeff[i] = twot*posnCoeff[i-1] - posnCoeff[i-2] }\<close>\<close>
  "posn_recur tw ncf p = fold (\<lambda>i p. p[i := tw * p ! (i - 1) - p ! (i - 2)]) [2..<ncf] p"

definition vel_recur :: "float64 \<Rightarrow> nat \<Rightarrow> float64 list \<Rightarrow> float64 list \<Rightarrow> float64 list" where
  \<comment> \<open>\<open>velCoeff[i] = twot*velCoeff[i-1] + 2*posnCoeff[i-1] - velCoeff[i-2]\<close>\<close>
  "vel_recur tw ncf p v =
     fold (\<lambda>i v. v[i := tw * v ! (i - 1) + 2 * p ! (i - 1) - v ! (i - 2)]) [2..<ncf] v"

definition accel_recur :: "float64 \<Rightarrow> nat \<Rightarrow> float64 list \<Rightarrow> float64 list" where
  \<comment> \<open>\<open>accelCoeffs\<close>: a fresh array of \<open>maxCheby\<close> zeros, filled from index 2.\<close>
  "accel_recur tw ncf v =
     fold (\<lambda>i a. a[i := 4 * v ! (i - 1) + tw * a ! (i - 1) - a ! (i - 2)]) [2..<ncf]
       ((replicate maxCheby 0)[0 := 0, 1 := 0])"

definition coef_low :: "nat \<Rightarrow> nat \<Rightarrow> nat \<Rightarrow> nat \<Rightarrow> nat" where
  \<comment> \<open>The slice bound \<open>ncf*(i+l*ncm)\<close>, in \<open>uint\<close> arithmetic.\<close>
  "coef_low ncf ncm l i = u64 (ncf * u64 (i + u64 (l * ncm)))"

definition cheb_sum :: "float64 list \<Rightarrow> float64 list \<Rightarrow> nat \<Rightarrow> nat \<Rightarrow> float64" where
  \<comment> \<open>\<open>for j = j0; j < ncf; j++ { tval += poly[j] * coeffPtr[j] }\<close>, from \<open>0.0\<close>.\<close>
  "cheb_sum poly coeffPtr j0 ncf = fold (\<lambda>j acc. acc + poly ! j * coeffPtr ! j) [j0..<ncf] 0"

definition interp_components ::
  "float64 list \<Rightarrow> float64 list \<Rightarrow> nat \<Rightarrow> nat \<Rightarrow> nat \<Rightarrow> nat \<Rightarrow> nat \<Rightarrow> (float64 \<Rightarrow> float64) \<Rightarrow>
   float64 list \<Rightarrow> panic + float64 list" where
  \<comment> \<open>The three component loops of \<open>interp\<close> (position, velocity, acceleration) have one shape:
      for each component \<open>i < ncm\<close>, slice \<open>coef[ncf*(i+l*ncm):]\<close>, sum the products from
      \<open>j0\<close> on, and store the scaled sum at \<open>posvel[base + i]\<close>. A slice bound beyond \<open>coef\<close>, a
      read beyond the slice or a write beyond \<open>posvel\<close> is Go's run-time panic.\<close>
  "interp_components poly coef ncf ncm l j0 base scale posvel =
     fold (\<lambda>i r. case r of
                    Inl p \<Rightarrow> Inl p
                  | Inr pv \<Rightarrow>
                      (let lo = coef_low ncf ncm l i in
                       if length coef < lo then Inl PanicIndex
                       else if j0 < ncf \<and> length coef - lo < ncf then Inl PanicIndex
                       else if length pv \<le> base + i then Inl PanicIndex
                       else Inr (pv[base + i := scale (cheb_sum poly (drop lo coef) j0 ncf)])))
       [0..<ncm] (Inr posvel)"

definition iinfo_set_tc :: "interpolationInfo \<Rightarrow> float64 \<Rightarrow> interpolationInfo" where
  \<comment> \<open>\<open>if tc != iinfo.posnCoeff[1] { ... }\<close>: a new normalised time resets both counts.\<close>
  "iinfo_set_tc iinfo tc =
     (if tc \<noteq> posnCoeff iinfo ! 1
      then iinfo\<lparr>nPosnAvail := 2, nVelAvail := 2,
                 posnCoeff := (posnCoeff iinfo)[1 := tc], twot := tc + tc\<rparr>
      else iinfo)"

definition iinfo_fill_posn :: "interpolationInfo \<Rightarrow> nat \<Rightarrow> interpolationInfo" where
  \<comment> \<open>\<open>if iinfo.nPosnAvail < ncf { ... }\<close>\<close>
  "iinfo_fill_posn iinfo ncf =
     (if nPosnAvail iinfo < ncf
      then iinfo\<lparr>posnCoeff := posn_recur (twot iinfo) ncf (posnCoeff iinfo), nPosnAvail := ncf\<rparr>
      else iinfo)"

definition iinfo_fill_vel :: "interpolationInfo \<Rightarrow> nat \<Rightarrow> interpolationInfo" where
  \<comment> \<open>\<open>if iinfo.nVelAvail < ncf { ... }\<close>\<close>
  "iinfo_fill_vel iinfo ncf =
     (if nVelAvail iinfo < ncf
      then iinfo\<lparr>velCoeff := vel_recur (twot iinfo) ncf (posnCoeff iinfo) (velCoeff iinfo),
                 nVelAvail := ncf\<rparr>
      else iinfo)"

definition interp ::
  "interpolationInfo \<Rightarrow> float64 list \<Rightarrow> float64 \<times> float64 \<Rightarrow> nat \<Rightarrow> nat \<Rightarrow> nat \<Rightarrow> int \<Rightarrow>
   float64 list \<Rightarrow> panic + (interpolationInfo \<times> float64 list)" where
  \<comment> \<open>The result is a panic, or the interpolation info and \<open>posvel\<close> as the call leaves them.\<close>
  "interp iinfo coef t ncf ncm na velocityFlag posvel =
     (let dna = real na;
          (l, tc) = interp_l_tc na (fst t)
      in if maxCheby \<le> ncf then Inl PanicNcf
         else if tc < - 1 \<or> 1 < tc then Inl PanicTc
         else
           (let iinfo2 = iinfo_fill_posn (iinfo_set_tc iinfo tc) ncf
            in case interp_components (posnCoeff iinfo2) coef ncf ncm l 0 0 (\<lambda>x. x) posvel of
                 Inl p \<Rightarrow> Inl p
               | Inr posvel1 \<Rightarrow>
                   if velocityFlag \<le> 1 then Inr (iinfo2, posvel1)
                   else
                     (let iinfo3 = iinfo_fill_vel iinfo2 ncf;
                          vfac = (dna + dna) / snd t
                      in case interp_components (velCoeff iinfo3) coef ncf ncm l 1 ncm
                                (\<lambda>x. x * vfac) posvel1 of
                           Inl p \<Rightarrow> Inl p
                         | Inr posvel2 \<Rightarrow>
                             if velocityFlag = 3
                             then (case interp_components
                                          (accel_recur (twot iinfo3) ncf (velCoeff iinfo3))
                                          coef ncf ncm l 2 (ncm + ncm) (\<lambda>x. x * vfac * vfac)
                                          posvel2 of
                                     Inl p \<Rightarrow> Inl p
                                   | Inr posvel3 \<Rightarrow> Inr (iinfo3, posvel3))
                             else Inr (iinfo3, posvel2))))"

definition init_iinfo :: interpolationInfo where
  \<comment> \<open>The interpolation info of a freshly opened ephemeris (\<open>initEphemeris\<close>): Go's zero
      values, then \<open>posnCoeff[0] = 1.0\<close>, \<open>posnCoeff[1] = -2.0\<close>, \<open>velCoeff[0] = 0.0\<close>,
      \<open>velCoeff[1] = 1.0\<close>.\<close>
  "init_iinfo =
     \<lparr>posnCoeff = (replicate maxCheby 0)[0 := 1, 1 := - 2],
      velCoeff = (replicate maxCheby 0)[0 := 0, 1 := 1],
      nPosnAvail = 0, nVelAvail = 0, twot = 0\<rparr>"

section \<open>The open ephemeris\<close>

text \<open>
  \<open>ifile\<close> is an \<open>io.ReadSeekCloser\<close>. The model keeps what \<open>State\<close> can observe of it: whether a
  seek to an absolute offset succeeds, whether reading a number of consecutive \<open>float64\<close>s at
  an offset succeeds, and the little-endian \<open>float64\<close> stored at an offset. The file is never
  written. Every seek and read attempted is appended to \<open>iolog\<close>, a field of the model only.
  The field \<open>name\<close> of the source's struct is read by no function modelled here and is left out.
\<close>

record jplFile =
  seekable :: "int \<Rightarrow> bool"
  readable :: "int \<Rightarrow> nat \<Rightarrow> bool"
  f64_at :: "int \<Rightarrow> 64 word"

datatype io_event =
    IoSeek int        \<comment> \<open>\<open>Seek(offset, io.SeekStart)\<close>\<close>
  | IoRead int nat    \<comment> \<open>\<open>binary.Read\<close> of so many \<open>float64\<close>s at the offset sought\<close>

record jplEphData =
  ephemStart :: float64
  ephemEnd :: float64
  ephemStep :: float64
  ncon :: "32 word"
  au :: float64
  emrat :: float64
  ipt :: "32 word list list"
  ephemerisVersion :: "64 word"
  kernelSize :: "32 word"
  recsize :: "32 word"
  ncoeff :: "32 word"
  swapBytes :: "32 word"
  currCacheLoc :: "32 word"
  pvsun :: "float64 list"
  pvsunT :: float64
  cache :: "64 word list"
  iinfo :: interpolationInfo
  ifile :: jplFile
  iolog :: "io_event list"

definition swapBytes64 :: "64 word \<Rightarrow> 64 word" where
  \<comment> \<open>The eight bytes of the bit pattern in reverse order.\<close>
  "swapBytes64 w =
     word_of_nat (fold (\<lambda>k acc. acc * 256 + (unat w div 256 ^ k) mod 256) [0..<8] 0)"

definition swapBytes64Slice :: "64 word list \<Rightarrow> 64 word list" where
  "swapBytes64Slice vals = map swapBytes64 vals"

definition quantityDimension :: "int \<Rightarrow> int" where
  "quantityDimension idx = (if idx = 11 then 2 else if idx = 14 then 1 else 3)"

definition blockLoc :: "jplEphData \<Rightarrow> float64 \<Rightarrow> float64" where
  \<comment> \<open>\<open>blockLoc := (et - ephem.ephemStart) / ephem.ephemStep\<close>, two \<open>float64\<close> operations.\<close>
  "blockLoc ephem et = f64_div (f64_sub et (ephemStart ephem)) (ephemStep ephem)"

definition record_index :: "jplEphData \<Rightarrow> float64 \<Rightarrow> 32 word \<times> float64" where
  \<comment> \<open>The record number \<open>nr\<close> and the fraction \<open>t[0]\<close> that \<open>State\<close> computes for an epoch.
      The difference \<open>blockLoc - float64(nr)\<close> is left exact: two \<open>float64\<close> differ by zero
      only when they are equal, and for \<open>0 \<le> blockLoc < 2^32\<close> the difference is the
      fractional part of a \<open>float64\<close>, which is a \<open>float64\<close>.\<close>
  "record_index ephem et =
     (let b = blockLoc ephem et;
          nr = uint32_of_float b;
          t0 = b - real (unat nr)
      in if t0 = 0 \<and> nr \<noteq> 0 then (nr - 1, 1) else (nr, t0))"

definition load_record :: "jplEphData \<Rightarrow> 32 word \<Rightarrow> jplEphData \<times> error option" where
  \<comment> \<open>The block \<open>if nr != ephem.currCacheLoc { ... }\<close> of \<open>State\<close>. The product
      \<open>(nr+2)*ephem.recsize\<close> is a \<open>uint32\<close> product, widened to \<open>int64\<close> afterwards.\<close>
  "load_record ephem nr =
     (if nr \<noteq> currCacheLoc ephem then
        (let off = uint ((nr + 2) * recsize ephem);
             n = length (cache ephem);
             ephem1 = ephem\<lparr>currCacheLoc := nr, iolog := iolog ephem @ [IoSeek off]\<rparr>
         in if \<not> seekable (ifile ephem) off then (ephem1, Some ErrFileSeek)
            else
              (let ephem2 = ephem1\<lparr>iolog := iolog ephem1 @ [IoRead off n]\<rparr>
               in if \<not> readable (ifile ephem) off n then (ephem2, Some ErrFileRead)
                  else
                    (let buf = map (\<lambda>k. f64_at (ifile ephem) (off + 8 * int k)) [0..<n]
                     in (ephem2\<lparr>cache := (if swapBytes ephem \<noteq> 0 then swapBytes64Slice buf
                                              else buf)\<rparr>,
                         None))))
      else (ephem, None))"

definition upd_prefix ::
  "(float64 \<Rightarrow> float64 \<Rightarrow> float64) \<Rightarrow> nat \<Rightarrow> float64 list \<Rightarrow> float64 list \<Rightarrow> panic + float64 list" where
  \<comment> \<open>\<open>for j = 0; j < m; j++ { row[j] = f(row[j], other[j]) }\<close>\<close>
  "upd_prefix f m row other =
     (if length row < m \<or> length other < m then Inl PanicIndex
      else Inr (map2 f (take m row) (take m other) @ drop m row))"

definition scale_prefix :: "float64 \<Rightarrow> nat \<Rightarrow> float64 list \<Rightarrow> panic + float64 list" where
  \<comment> \<open>\<open>for j = 0; j < m; j++ { dest[j] *= aufac }\<close>\<close>
  "scale_prefix aufac m dest =
     (if length dest < m then Inl PanicIndex
      else Inr (map (\<lambda>x. x * aufac) (take m dest) @ drop m dest))"

type_synonym state_vars =
  "interpolationInfo \<times> float64 list list \<times> float64 list \<times> float64 list"

definition item_quantities :: "int list \<Rightarrow> bool \<Rightarrow> nat \<Rightarrow> int" where
  \<comment> \<open>\<open>quantities\<close> for item \<open>i\<close> of the loop: the request flag, or for the Sun (item 14) 3
      when its state is to be recomputed and Go's zero value otherwise.\<close>
  "item_quantities list recomputePvsun i =
     (if i = 14 then (if recomputePvsun then 3 else 0) else list ! i)"

definition item_iptr :: "jplEphData \<Rightarrow> nat \<Rightarrow> 32 word list" where
  \<comment> \<open>\<open>iptr\<close> for item \<open>i\<close> of the loop.\<close>
  "item_iptr ephem i =
     (if i = 14 then ipt ephem ! 10 else if i < 10 then ipt ephem ! i else ipt ephem ! (i + 1))"

definition state_item ::
  "jplEphData \<Rightarrow> float64 \<times> float64 \<Rightarrow> int list \<Rightarrow> bool \<Rightarrow> nat \<times> nat \<Rightarrow>
   panic + state_vars \<Rightarrow> panic + state_vars" where
  \<comment> \<open>The body of the double loop of \<open>State\<close> for one \<open>(nIntervals, i)\<close>. What the loop changes
      is threaded: the interpolation info, \<open>pv\<close>, \<open>pvsun\<close> and \<open>nut\<close>; \<open>ephem\<close> gives the fields
      the loop only reads (\<open>ipt\<close>, \<open>cache\<close>, \<open>au\<close>).\<close>
  "state_item ephem t list recomputePvsun ni r =
     (case r of
        Inl p \<Rightarrow> Inl p
      | Inr (ii, pv, pvs, nut) \<Rightarrow>
          (let nIntervals = fst ni;
               i = snd ni;
               quantities = item_quantities list recomputePvsun i;
               iptr = item_iptr ephem i
           in if nIntervals = unat (iptr ! 2) \<and> quantities \<noteq> 0 then
                (let dest = (if i < 10 then pv ! i else if i = 14 then pvs else nut);
                     lo = unat (iptr ! 0 - 1);
                     buf = cache ephem
                 in if length buf < lo then Inl PanicIndex
                    else
                      (case interp ii (map float64_val (drop lo buf)) t (unat (iptr ! 1))
                              (nat (quantityDimension (int i + 1))) nIntervals quantities dest of
                         Inl p \<Rightarrow> Inl p
                       | Inr (ii1, dest1) \<Rightarrow>
                           (case (if i < 10 \<or> i = 14
                                  then scale_prefix (1 / au ephem) (uint_of_int (quantities * 3)) dest1
                                  else Inr dest1) of
                              Inl p \<Rightarrow> Inl p
                            | Inr dest2 \<Rightarrow>
                                Inr (if i < 10 then (ii1, pv[i := dest2], pvs, nut)
                                     else if i = 14 then (ii1, pv, dest2, nut)
                                     else (ii1, pv, pvs, dest2)))))
              else Inr (ii, pv, pvs, nut)))"

definition state_pairs :: "(nat \<times> nat) list" where
  \<comment> \<open>\<open>for nIntervals = 1; nIntervals <= 8; nIntervals *= 2 { for i = 0; i < 15; i++ { ... } }\<close>\<close>
  "state_pairs = concat (map (\<lambda>n. map (\<lambda>i. (n, i)) [0..<15]) [1, 2, 4, 8])"

definition bary_correct :: "int list \<Rightarrow> float64 list \<Rightarrow> float64 list list \<Rightarrow> panic + float64 list list" where
  \<comment> \<open>\<open>for i = 0; i < 9; i++ { for j = 0; j < uint(list[i]*3); j++ { pv[i][j] -= pvsun[j] } }\<close>\<close>
  "bary_correct list pvs pv =
     fold (\<lambda>i r. case r of
                    Inl p \<Rightarrow> Inl p
                  | Inr pv1 \<Rightarrow>
                      (case upd_prefix (-) (uint_of_int (list ! i * 3)) (pv1 ! i) pvs of
                         Inl p \<Rightarrow> Inl p
                       | Inr row \<Rightarrow> Inr (pv1[i := row])))
       [0..<9] (Inr pv)"

definition State_compute ::
  "jplEphData \<Rightarrow> float64 \<Rightarrow> float64 \<Rightarrow> int list \<Rightarrow> float64 list list \<Rightarrow> float64 list \<Rightarrow> int \<Rightarrow>
   panic + (jplEphData \<times> float64 list list \<times> float64 list \<times> error option)" where
  \<comment> \<open>\<open>State\<close> from \<open>t[1] = ephem.ephemStep\<close> on, with the record in the cache: the test of
      the Sun's epoch, the double loop and the correction by the Sun's state.\<close>
  "State_compute ephem1 et t0 list pv nut bary =
     (let t = (t0, ephemStep ephem1);
          recomputePvsun = (pvsunT ephem1 \<noteq> et);
          ephem2 = (if recomputePvsun then ephem1\<lparr>pvsunT := et\<rparr> else ephem1)
      in case fold (state_item ephem2 t list recomputePvsun) state_pairs
                (Inr (iinfo ephem2, pv, pvsun ephem2, nut)) of
           Inl p \<Rightarrow> Inl p
         | Inr (ii, pv1, pvs, nut1) \<Rightarrow>
             (case (if bary = 0 then bary_correct list pvs pv1 else Inr pv1) of
                Inl p \<Rightarrow> Inl p
              | Inr pv2 \<Rightarrow> Inr (ephem2\<lparr>iinfo := ii, pvsun := pvs\<rparr>, pv2, nut1, None)))"

definition State ::
  "jplEphData \<Rightarrow> float64 \<Rightarrow> int list \<Rightarrow> float64 list list \<Rightarrow> float64 list \<Rightarrow> int \<Rightarrow>
   panic + (jplEphData \<times> float64 list list \<times> float64 list \<times> error option)" where
  \<comment> \<open>The result is a panic, or the handle, \<open>pv\<close> and \<open>nut\<close> as the call leaves them and the
      error returned (\<open>None\<close> for \<open>nil\<close>).\<close>
  "State ephem et list pv nut bary =
     (if et < ephemStart ephem \<or> ephemEnd ephem < et
      then Inr (ephem, pv, nut, Some ErrOutsideRange)
      else
        (let (nr, t0) = record_index ephem et in
         case load_record ephem nr of
           (ephem1, Some err) \<Rightarrow> Inr (ephem1, pv, nut, Some err)
         | (ephem1, None) \<Rightarrow> State_compute ephem1 et t0 list pv nut bary))"

section \<open>Relative states\<close>

definition mark_body :: "int \<Rightarrow> nat \<Rightarrow> int list \<Rightarrow> int list" where
  \<comment> \<open>The four tests on the body index \<open>k\<close> in the loop of \<open>Pleph\<close> that prepares \<open>list\<close>.\<close>
  "mark_body listVal k list =
     (let list1 = (if k \<le> 9 then list[k := listVal] else list);
          list2 = (if k = 9 then list1[2 := listVal] else list1);
          list3 = (if k = 2 then list2[9 := listVal] else list2)
      in if k = 12 then list3[2 := listVal] else list3)"

definition body_list :: "int \<Rightarrow> int \<Rightarrow> int \<Rightarrow> int list" where
  \<comment> \<open>\<open>list\<close> as \<open>Pleph\<close> prepares it for two body codes: round \<open>i = 0\<close> marks the target,
      round \<open>i = 1\<close> the centre, with \<open>k := uint((i*ncent + (1-i)*ntarg) - 1)\<close>.\<close>
  "body_list ntarg ncent listVal =
     fold (\<lambda>i. mark_body listVal (uint_of_int ((int i * ncent + (1 - int i) * ntarg) - 1)))
       [0..<2] (replicate 14 0)"

definition adjust_pv ::
  "jplEphData \<Rightarrow> int \<Rightarrow> int \<Rightarrow> int list \<Rightarrow> float64 list list \<Rightarrow> panic + float64 list list" where
  \<comment> \<open>What \<open>Pleph\<close> does to \<open>pv\<close> between the call of \<open>State\<close> and the final difference.\<close>
  "adjust_pv ephem ntarg ncent list pv =
     (let pv1 = (if ntarg = 11 \<or> ncent = 11 then pv[10 := map (\<lambda>i. pvsun ephem ! i) [0..<6]] else pv);
          pv2 = (if ntarg = 12 \<or> ncent = 12 then pv1[11 := replicate 6 0] else pv1);
          pv3 = (if ntarg = 13 \<or> ncent = 13 then pv2[12 := map (\<lambda>i. pv2 ! 2 ! i) [0..<6]] else pv2)
      in if ntarg * ncent = 30 \<and> ntarg + ncent = 13 then Inr (pv3[2 := replicate 6 0])
         else
           (case (if list ! 2 \<noteq> 0
                  then (case upd_prefix (\<lambda>a b. a - b / (1 + emrat ephem))
                               (uint_of_int (list ! 2 * 3)) (pv3 ! 2) (pv3 ! 9) of
                          Inl p \<Rightarrow> Inl p
                        | Inr row \<Rightarrow> Inr (pv3[2 := row]))
                  else Inr pv3) of
              Inl p \<Rightarrow> Inl p
            | Inr pv4 \<Rightarrow>
                if list ! 9 \<noteq> 0
                then (case upd_prefix (+) (uint_of_int (list ! 9 * 3)) (pv4 ! 9) (pv4 ! 2) of
                        Inl p \<Rightarrow> Inl p
                      | Inr row \<Rightarrow> Inr (pv4[9 := row]))
                else Inr pv4))"

definition Pleph ::
  "jplEphData \<Rightarrow> float64 \<Rightarrow> int \<Rightarrow> int \<Rightarrow> int \<Rightarrow>
   panic + (jplEphData \<times> float64 list option \<times> error option)" where
  \<comment> \<open>The result is a panic, or the handle as the call leaves it, the slice returned (\<open>None\<close>
      for \<open>nil\<close>) and the error returned (\<open>None\<close> for \<open>nil\<close>).\<close>
  "Pleph ephem et ntarg ncent calcVelocity =
     (let pv = replicate 13 (replicate 6 0);
          listVal = (if calcVelocity \<noteq> 0 then 2 else 1);
          list = replicate 14 0;
          rrd = replicate 6 0
      in if ntarg = ncent then Inr (ephem, Some rrd, None)
         else
           (case find (\<lambda>i. ntarg = int i + 14) [0..<4] of
              Some i \<Rightarrow>
                if 0 < ipt ephem ! (i + 11) ! 1
                then (case State ephem et (list[i + 10 := listVal]) pv rrd 0 of
                        Inl p \<Rightarrow> Inl p
                      | Inr (ephem1, pv1, rrd1, Some err) \<Rightarrow> Inr (ephem1, None, Some err)
                      | Inr (ephem1, pv1, rrd1, None) \<Rightarrow> Inr (ephem1, Some rrd1, None))
                else Inr (ephem, None, Some ErrQuantityNotInEphemeris)
            | None \<Rightarrow>
                if 13 < ntarg \<or> 13 < ncent \<or> ntarg < 1 \<or> ncent < 1
                then Inr (ephem, None, Some ErrInvalidIndex)
                else
                  (let list1 = body_list ntarg ncent listVal in
                   case State ephem et list1 pv rrd 1 of
                     Inl p \<Rightarrow> Inl p
                   | Inr (ephem1, pv1, rrd1, Some err) \<Rightarrow> Inr (ephem1, Some rrd1, Some err)
                   | Inr (ephem1, pv1, rrd1, None) \<Rightarrow>
                       (case adjust_pv ephem1 ntarg ncent list1 pv1 of
                          Inl p \<Rightarrow> Inl p
                        | Inr pv2 \<Rightarrow>
                            (let m = uint_of_int (listVal * 3)
                             in if length rrd1 < m \<or> length (pv2 ! nat (ntarg - 1)) < m
                                   \<or> length (pv2 ! nat (ncent - 1)) < m
                                then Inl PanicIndex
                                else Inr (ephem1,
                                          Some (map2 (-) (take m (pv2 ! nat (ntarg - 1)))
                                                  (take m (pv2 ! nat (ncent - 1))) @ drop m rrd1),
                                          None))))))"

section \<open>Opening an ephemeris: record geometry and the initial caches\<close>

definition init_geometry :: "jplEphData \<Rightarrow> jplEphData" where
  \<comment> \<open>The end of \<open>initEphemeris\<close>, from the header as decoded and checked: the kernel size, the
      record size and the number of coefficients (all \<open>uint32\<close>), the cache buffer of \<open>ncoeff\<close>
      zeros, the initial interpolation info and the invalid cache location.\<close>
  "init_geometry ephem =
     (let ks = fold (\<lambda>i k. k + 2 * (ipt ephem ! i ! 1) * (ipt ephem ! i ! 2)
                                  * word_of_int (quantityDimension (int i)))
                [0..<15] 4;
          rs = ks * 4;
          nc = ks div 2
      in ephem\<lparr>kernelSize := ks, recsize := rs, ncoeff := nc,
                cache := replicate (unat nc) 0, iinfo := init_iinfo,
                currCacheLoc := 4294967295\<rparr>)"

section \<open>The recurrences as the specification words them\<close>

text \<open>
  Position \<open>T0 = 1\<close>, \<open>T1 = tc\<close>, \<open>Tn = 2 tc T(n-1) - T(n-2)\<close>; velocity \<open>T'0 = 0\<close>, \<open>T'1 = 1\<close>,
  \<open>T'n = 2 tc T'(n-1) + 2 T(n-1) - T'(n-2)\<close>; acceleration \<open>A0 = A1 = 0\<close>,
  \<open>An = 4 T'(n-1) + 2 tc A(n-1) - A(n-2)\<close>.
\<close>

fun cheb_T :: "real \<Rightarrow> nat \<Rightarrow> real" where
  "cheb_T tc 0 = 1"
| "cheb_T tc (Suc 0) = tc"
| "cheb_T tc (Suc (Suc n)) = 2 * tc * cheb_T tc (Suc n) - cheb_T tc n"

fun cheb_V :: "real \<Rightarrow> nat \<Rightarrow> real" where
  "cheb_V tc 0 = 0"
| "cheb_V tc (Suc 0) = 1"
| "cheb_V tc (Suc (Suc n)) = 2 * tc * cheb_V tc (Suc n) + 2 * cheb_T tc (Suc n) - cheb_V tc n"

fun cheb_A :: "real \<Rightarrow> nat \<Rightarrow> real" where
  "cheb_A tc 0 = 0"
| "cheb_A tc (Suc 0) = 0"
| "cheb_A tc (Suc (Suc n)) = 4 * cheb_V tc (Suc n) + 2 * tc * cheb_A tc (Suc n) - cheb_A tc n"

definition interp_stateless ::
  "float64 list \<Rightarrow> float64 \<times> float64 \<Rightarrow> nat \<Rightarrow> nat \<Rightarrow> nat \<Rightarrow> int \<Rightarrow> float64 list \<Rightarrow>
   panic + float64 list" where
  \<comment> \<open>The interpolation with no cache: every polynomial term is computed from the recurrences
      above at each call. The aborts and the component loops are those of \<open>interp\<close>.\<close>
  "interp_stateless coef t ncf ncm na velocityFlag posvel =
     (let (l, tc) = interp_l_tc na (fst t);
          vfac = (real na + real na) / snd t
      in if maxCheby \<le> ncf then Inl PanicNcf
         else if tc < - 1 \<or> 1 < tc then Inl PanicTc
         else
           (case interp_components (map (cheb_T tc) [0..<maxCheby]) coef ncf ncm l 0 0
                   (\<lambda>x. x) posvel of
              Inl p \<Rightarrow> Inl p
            | Inr posvel1 \<Rightarrow>
                if velocityFlag \<le> 1 then Inr posvel1
                else
                  (case interp_components (map (cheb_V tc) [0..<maxCheby]) coef ncf ncm l 1 ncm
                          (\<lambda>x. x * vfac) posvel1 of
                     Inl p \<Rightarrow> Inl p
                   | Inr posvel2 \<Rightarrow>
                       if velocityFlag = 3
                       then interp_components (map (cheb_A tc) [0..<maxCheby]) coef ncf ncm l 2
                              (ncm + ncm) (\<lambda>x. x * vfac * vfac) posvel2
                       else Inr posvel2)))"

type_synonym interp_call =
  "float64 list \<times> (float64 \<times> float64) \<times> nat \<times> nat \<times> nat \<times> int \<times> float64 list"

fun interp_calls :: "interpolationInfo \<Rightarrow> interp_call list \<Rightarrow> (panic + float64 list) list" where
  \<comment> \<open>A sequence of calls of \<open>interp\<close> on one interpolation info; a panic ends the run.\<close>
  "interp_calls ii [] = []"
| "interp_calls ii ((coef, t, ncf, ncm, na, velocityFlag, posvel) # cs) =
     (case interp ii coef t ncf ncm na velocityFlag posvel of
        Inl p \<Rightarrow> [Inl p]
      | Inr (ii1, out) \<Rightarrow> Inr out # interp_calls ii1 cs)"

fun stateless_calls :: "interp_call list \<Rightarrow> (panic + float64 list) list" where
  "stateless_calls [] = []"
| "stateless_calls ((coef, t, ncf, ncm, na, velocityFlag, posvel) # cs) =
     (case interp_stateless coef t ncf ncm na velocityFlag posvel of
        Inl p \<Rightarrow> [Inl p]
      | Inr out \<Rightarrow> Inr out # stateless_calls cs)"

definition iinfo_inv :: "interpolationInfo \<Rightarrow> bool" where
  \<comment> \<open>What every interpolation info reached from \<open>init_iinfo\<close> satisfies: the arrays have
      \<open>maxCheby\<close> entries, the three constant entries are as set at opening, and when the cached
      time \<open>posnCoeff[1]\<close> is a normalised time, \<open>twot\<close> is its double and the entries counted
      available are the terms of the recurrences at that time.\<close>
  "iinfo_inv ii \<longleftrightarrow>
     length (posnCoeff ii) = maxCheby \<and> length (velCoeff ii) = maxCheby \<and>
     posnCoeff ii ! 0 = 1 \<and> velCoeff ii ! 0 = 0 \<and> velCoeff ii ! 1 = 1 \<and>
     (- 1 \<le> posnCoeff ii ! 1 \<and> posnCoeff ii ! 1 \<le> 1 \<longrightarrow>
        twot ii = posnCoeff ii ! 1 + posnCoeff ii ! 1 \<and>
        (\<forall>i \<in> {2..<min (nPosnAvail ii) maxCheby}. posnCoeff ii ! i = cheb_T (posnCoeff ii ! 1) i) \<and>
        (\<forall>i \<in> {2..<min (nVelAvail ii) maxCheby}. velCoeff ii ! i = cheb_V (posnCoeff ii ! 1) i))"

section \<open>Quantities the theorems are stated with\<close>

definition rec_fill :: "(nat \<Rightarrow> real \<Rightarrow> real \<Rightarrow> real) \<Rightarrow> nat \<Rightarrow> real list \<Rightarrow> real list" where
  \<comment> \<open>The common shape of the three recurrence loops of \<open>interp\<close>: entry \<open>i\<close> from the two
      entries before it.\<close>
  "rec_fill g n p = fold (\<lambda>i v. v[i := g i (v ! (i - 1)) (v ! (i - 2))]) [2..<n] p"

definition reload_events :: "jplEphData \<Rightarrow> 32 word \<Rightarrow> io_event list" where
  \<comment> \<open>The seeks and reads \<open>State\<close> attempts for record number \<open>nr\<close>.\<close>
  "reload_events ephem nr =
     (let off = uint ((nr + 2) * recsize ephem)
      in if nr = currCacheLoc ephem then []
         else if seekable (ifile ephem) off then [IoSeek off, IoRead off (length (cache ephem))]
         else [IoSeek off])"

definition kernel_exact :: "jplEphData \<Rightarrow> nat" where
  \<comment> \<open>\<open>4 + \<Sum> 2 * order * nSubIntervals * dimension\<close> over the 15 rows, as a natural number:
      dimension 2 for row 11 (nutations), 1 for row 14 (TT-TDB), 3 otherwise.\<close>
  "kernel_exact ephem =
     4 + sum_list (map (\<lambda>i. 2 * unat (ipt ephem ! i ! 1) * unat (ipt ephem ! i ! 2)
                               * (if i = 11 then 2 else if i = 14 then 1 else 3)) [0..<15])"

definition State_io ::
  "panic + (jplEphData \<times> float64 list list \<times> float64 list \<times> error option) \<Rightarrow>
   panic + (io_event list \<times> error option)" where
  \<comment> \<open>Of a result of \<open>State\<close>: the log of the handle and the error.\<close>
  "State_io r = (case r of Inl p \<Rightarrow> Inl p | Inr (e, pv, nut, err) \<Rightarrow> Inr (iolog e, err))"

definition Pleph_value ::
  "panic + (jplEphData \<times> float64 list option \<times> error option) \<Rightarrow>
   panic + (float64 list option \<times> error option)" where
  \<comment> \<open>Of a result of \<open>Pleph\<close>: the two values returned.\<close>
  "Pleph_value r = (case r of Inl p \<Rightarrow> Inl p | Inr (e, rrd, err) \<Rightarrow> Inr (rrd, err))"

section \<open>Example handles\<close>

text \<open>
  A small ephemeris: days 0 to 10 in records of one day; Mercury (row 0), the Sun (row 10) and
  the nutations (row 11) with two coefficients per component and one sub-interval, so 18
  coefficients and 144 bytes per record. The file repeats the \<open>float64\<close>s 1, 2, 0.5, 3.
  \<open>ex_ephem\<close> is the handle as opened; \<open>ex_ephem_1\<close> is the handle after \<open>State\<close> at epoch 1.5.
\<close>

definition ex_file :: jplFile where
  "ex_file =
     \<lparr>seekable = (\<lambda>off. True), readable = (\<lambda>off n. True),
      f64_at = (\<lambda>off. [0x3FF0000000000000, 0x4000000000000000, 0x3FE0000000000000,
                         0x4008000000000000] ! nat ((off div 8) mod 4))\<rparr>"

definition ex_ephem :: jplEphData where
  "ex_ephem =
     \<lparr>ephemStart = 0, ephemEnd = 10, ephemStep = 1, ncon = 0, au = 149597870.7, emrat = 81.30056,
      ipt = [3, 2, 1] # replicate 9 [0, 0, 0] @ [[9, 2, 1], [15, 2, 1]] @ replicate 3 [0, 0, 0],
      ephemerisVersion = 405, kernelSize = 36, recsize = 144, ncoeff = 18, swapBytes = 0,
      currCacheLoc = 4294967295, pvsun = [0, 0, 0, 0, 0, 0, 0, 0, 0], pvsunT = - (10 ^ 80),
      cache = [0, 0, 0, 0, 0, 0, 0, 0, 0, 0, 0, 0, 0, 0, 0, 0, 0, 0],
      iinfo = init_iinfo, ifile = ex_file, iolog = []\<rparr>"

definition ex_ephem_1 :: jplEphData where
  "ex_ephem_1 =
     ex_ephem\<lparr>currCacheLoc := 1,
       pvsun := [5 / 1495978707, 10 / 1495978707, 5 / 1495978707,
                 20 / 498659569, 40 / 1495978707, 20 / 498659569, 0, 0, 0],
       pvsunT := 3 / 2,
       cache := [0x3FE0000000000000, 0x4008000000000000, 0x3FF0000000000000, 0x4000000000000000,
                 0x3FE0000000000000, 0x4008000000000000, 0x3FF0000000000000, 0x4000000000000000,
                 0x3FE0000000000000, 0x4008000000000000, 0x3FF0000000000000, 0x4000000000000000,
                 0x3FE0000000000000, 0x4008000000000000, 0x3FF0000000000000, 0x4000000000000000,
                 0x3FE0000000000000, 0x4008000000000000],
       iinfo := \<lparr>posnCoeff = [1, 0, 0, 0, 0, 0, 0, 0, 0, 0, 0, 0, 0, 0, 0, 0, 0, 0],
                  velCoeff = [0, 1, 0, 0, 0, 0, 0, 0, 0, 0, 0, 0, 0, 0, 0, 0, 0, 0],
                  nPosnAvail = 2, nVelAvail = 2, twot = 0\<rparr>,
       iolog := [IoSeek 432, IoRead 432 18]\<rparr>"

text \<open>
  Variants: the nutation row with two coefficients and no sub-interval, so 14 coefficients
  and 112 bytes per record; the file of \<open>ex_ephem\<close> with thirty million records; Mercury's
  row with \<open>65536\<close> coefficients in \<open>65536\<close> sub-intervals.
\<close>

definition cx_nut_ephem :: jplEphData where
  "cx_nut_ephem =
     ex_ephem\<lparr>ipt := (ipt ex_ephem)[11 := [15, 2, 0]], kernelSize := 28, recsize := 112,
       ncoeff := 14, cache := replicate 14 0\<rparr>"

definition big_ephem :: jplEphData where
  "big_ephem = ex_ephem\<lparr>ephemEnd := 30000000\<rparr>"

definition cx_geom_ephem :: jplEphData where
  "cx_geom_ephem = ex_ephem\<lparr>ipt := (ipt ex_ephem)[0 := [3, 65536, 65536]]\<rparr>"

text \<open>
  The same file read in records of 32 days from day \<open>-3100015.5\<close>, and this handle after
  \<open>State\<close> at epoch \<open>6499984.5\<close>, the end of record 299999. The next \<open>float64\<close> after that
  epoch is \<open>6499984.5 + 2^(-30)\<close>.
\<close>

definition ulp_ephem :: jplEphData where
  "ulp_ephem = ex_ephem\<lparr>ephemStart := - (6200031 / 2), ephemEnd := 7000000, ephemStep := 32\<rparr>"

definition ulp_ephem_1 :: jplEphData where
  "ulp_ephem_1 =
     ulp_ephem\<lparr>currCacheLoc := 299999,
       pvsun := [35 / 1495978707, 10 / 498659569, 35 / 1495978707,
                 5 / 3989276552, 5 / 5983914828, 5 / 3989276552, 0, 0, 0],
       pvsunT := 12999969 / 2,
       cache := cache ex_ephem_1,
       iinfo := \<lparr>posnCoeff = [1, 1, 0, 0, 0, 0, 0, 0, 0, 0, 0, 0, 0, 0, 0, 0, 0, 0],
                  velCoeff = [0, 1, 0, 0, 0, 0, 0, 0, 0, 0, 0, 0, 0, 0, 0, 0, 0, 0],
                  nPosnAvail = 2, nVelAvail = 2, twot = 2\<rparr>,
       iolog := [IoSeek 43200144, IoRead 43200144 18]\<rparr>"

text \<open>
  The interpolation info after a position request of order 3 at \<open>tc = 1\<close>, and after a
  second one of order 5 at the same \<open>tc\<close>.
\<close>

definition ii_order3 :: interpolationInfo where
  "ii_order3 =
     \<lparr>posnCoeff = [1, 1, 1, 0, 0, 0, 0, 0, 0, 0, 0, 0, 0, 0, 0, 0, 0, 0],
      velCoeff = [0, 1, 0, 0, 0, 0, 0, 0, 0, 0, 0, 0, 0, 0, 0, 0, 0, 0],
      nPosnAvail = 3, nVelAvail = 2, twot = 2\<rparr>"

definition ii_order5 :: interpolationInfo where
  "ii_order5 =
     \<lparr>posnCoeff = [1, 1, 1, 1, 1, 0, 0, 0, 0, 0, 0, 0, 0, 0, 0, 0, 0, 0],
      velCoeff = [0, 1, 0, 0, 0, 0, 0, 0, 0, 0, 0, 0, 0, 0, 0, 0, 0, 0],
      nPosnAvail = 5, nVelAvail = 2, twot = 2\<rparr>"

section \<open>Auxiliary lemmas\<close>

subsection \<open>Rounding to float64\<close>

lemma bitlen_unique:
  assumes "2 ^ k \<le> n" "n < 2 ^ Suc k"
  shows "bitlen n = int k + 1"
proof -
  have "(0::int) < 2 ^ k" by simp
  then have n: "0 < n" using assms(1) by linarith
  note b = bitlen_bounds [OF n]
  have b1: "1 \<le> bitlen n" using n bitlen_eq_zero_iff [of n] bitlen_nonneg [of n] by linarith
  have "(2::int) ^ nat (bitlen n - 1) < 2 ^ Suc k" using b assms by linarith
  then have "nat (bitlen n - 1) < Suc k" by (simp add: power_strict_increasing_iff del: power_Suc)
  moreover have "(2::int) ^ k < 2 ^ nat (bitlen n)" using b assms by linarith
  then have "k < nat (bitlen n)" by (simp add: power_strict_increasing_iff)
  ultimately show ?thesis using b1 by linarith
qed

lemma binade_eq:
  assumes lo: "2 powi e \<le> \<bar>x\<bar>" and hi: "\<bar>x\<bar> < 2 powi (e + 1)"
  shows "binade x = e"
proof (cases "1 \<le> \<bar>x\<bar>")
  case True
  have e0: "0 \<le> e"
  proof (rule ccontr)
    assume "\<not> 0 \<le> e"
    then have "e + 1 \<le> 0" by simp
    then have "(2::real) powi (e + 1) \<le> 2 powi 0" by (intro power_int_increasing) simp_all
    then show False using hi True by simp
  qed
  define k where "k = nat e"
  have e: "e = int k" using e0 by (simp add: k_def)
  have lo': "(2::real) ^ k \<le> \<bar>x\<bar>" using lo by (simp add: e)
  have hi': "\<bar>x\<bar> < 2 ^ Suc k" using hi by (simp add: e power_int_add)
  have a: "2 ^ k \<le> \<lfloor>\<bar>x\<bar>\<rfloor>" using lo' by (simp add: le_floor_iff)
  have b: "\<lfloor>\<bar>x\<bar>\<rfloor> < 2 ^ Suc k" using hi' by (simp add: floor_less_iff del: power_Suc)
  show ?thesis using bitlen_unique [OF a b] True by (simp add: binade_def e)
next
  case False
  then have x1: "\<bar>x\<bar> < 1" by simp
  have "(0::real) < 2 powi e" by (simp add: zero_less_power_int)
  then have x0: "0 < \<bar>x\<bar>" using lo by linarith
  have e0: "e < 0"
  proof (rule ccontr)
    assume "\<not> e < 0"
    then have "(2::real) powi 0 \<le> 2 powi e" by (intro power_int_increasing) simp_all
    then show False using lo x1 by simp
  qed
  define k where "k = nat (- e - 1)"
  have e: "e = - int k - 1" using e0 by (simp add: k_def)
  have p1: "(2::real) powi e = 1 / 2 ^ Suc k"
    by (simp add: e power_int_def field_simps nat_add_distrib)
  have p2: "(2::real) powi (e + 1) = 1 / 2 ^ k"
    by (simp add: e power_int_def field_simps)
  define y where "y = 1 / \<bar>x\<bar>"
  have y1: "y \<le> 2 ^ Suc k" using lo x0 unfolding p1 y_def by (simp add: field_simps)
  have y2: "2 ^ k < y" using hi x0 unfolding p2 y_def by (simp add: field_simps)
  have c1: "\<lceil>y\<rceil> \<le> 2 ^ Suc k" using y1 by (simp add: ceiling_le_iff del: power_Suc)
  have c2: "2 ^ k < \<lceil>y\<rceil>" using y2 by (simp add: less_ceiling_iff)
  have a: "2 ^ k \<le> \<lceil>y\<rceil> - 1" using c2 by simp
  have b: "\<lceil>y\<rceil> - 1 < 2 ^ Suc k" using c1 by simp
  show ?thesis using bitlen_unique [OF a b] False by (simp add: binade_def y_def e)
qed

lemma round_even_of_int [simp]: "round_even (of_int k) = k"
  by (simp add: round_even_def)

lemma round_even_numeral [simp]: "round_even (numeral k) = numeral k"
  using round_even_of_int [of "numeral k"] by simp

lemma round64_binade:
  assumes "2 powi e \<le> \<bar>x\<bar>" "\<bar>x\<bar> < 2 powi (e + 1)" "- 1022 \<le> e"
  shows "round64 x = of_int (round_even (x / 2 powi (e - 52))) * 2 powi (e - 52)"
proof -
  have "x \<noteq> 0"
  proof
    assume "x = 0"
    then have "2 powi e \<le> (0::real)" using assms(1) by simp
    moreover have "(0::real) < 2 powi e" by (simp add: zero_less_power_int)
    ultimately show False by linarith
  qed
  then show ?thesis using assms(3) by (simp add: round64_def binade_eq [OF assms(1,2)] max_def Let_def)
qed

lemma round64_0 [simp]: "round64 0 = 0"
  by (simp add: round64_def)

lemma round64_nonneg: "0 \<le> x \<Longrightarrow> 0 \<le> round64 x"
  by (auto simp: round64_def round_even_def Let_def intro!: mult_nonneg_nonneg)

lemma round64_vals:
  "round64 (3 / 2) = 3 / 2" "round64 2 = 2" "round64 (5 / 2) = 5 / 2" "round64 10 = 10"
  "round64 (59652321 / 2) = 59652321 / 2" "round64 9600000 = 9600000"
  "round64 300000 = 300000"
proof -
  show "round64 (3 / 2) = 3 / 2"
    by (subst round64_binade [where e = 0]) (simp_all add: power_int_def power_one_over)
  show "round64 2 = 2"
    by (subst round64_binade [where e = 1]) (simp_all add: power_int_def power_one_over)
  show "round64 (5 / 2) = 5 / 2"
    by (subst round64_binade [where e = 1]) (simp_all add: power_int_def power_one_over)
  show "round64 10 = 10"
    by (subst round64_binade [where e = 3]) (simp_all add: power_int_def power_one_over)
  show "round64 (59652321 / 2) = 59652321 / 2"
    by (subst round64_binade [where e = 24]) (simp_all add: power_int_def power_one_over)
  show "round64 9600000 = 9600000"
    by (subst round64_binade [where e = 23]) (simp_all add: power_int_def power_one_over)
  show "round64 300000 = 300000"
    by (subst round64_binade [where e = 18]) (simp_all add: power_int_def power_one_over)
qed

lemma round64_tie: "round64 (10307921510400001 / 1073741824) = 9600000"
  by (subst round64_binade [where e = 23])
     (simp_all add: power_int_def power_one_over round_even_def Let_def)

subsection \<open>Recurrences and the interpolation cache\<close>

lemma cheb_T_rec: "2 \<le> i \<Longrightarrow> cheb_T tc i = 2 * tc * cheb_T tc (i - 1) - cheb_T tc (i - 2)"
proof -
  assume "2 \<le> i"
  then obtain k where "i = Suc (Suc k)"
    by (auto simp: numeral_2_eq_2 Suc_le_eq dest!: less_imp_Suc_add)
  then show ?thesis by simp
qed

lemma cheb_V_rec:
  "2 \<le> i \<Longrightarrow> cheb_V tc i = 2 * tc * cheb_V tc (i - 1) + 2 * cheb_T tc (i - 1) - cheb_V tc (i - 2)"
proof -
  assume "2 \<le> i"
  then obtain k where "i = Suc (Suc k)"
    by (auto simp: numeral_2_eq_2 Suc_le_eq dest!: less_imp_Suc_add)
  then show ?thesis by simp
qed

lemma cheb_A_rec:
  "2 \<le> i \<Longrightarrow> cheb_A tc i = 4 * cheb_V tc (i - 1) + 2 * tc * cheb_A tc (i - 1) - cheb_A tc (i - 2)"
proof -
  assume "2 \<le> i"
  then obtain k where "i = Suc (Suc k)"
    by (auto simp: numeral_2_eq_2 Suc_le_eq dest!: less_imp_Suc_add)
  then show ?thesis by simp
qed

lemma rec_fill_small: "n \<le> 2 \<Longrightarrow> rec_fill g n p = p"
  by (simp add: rec_fill_def)

lemma rec_fill_Suc:
  "2 \<le> n \<Longrightarrow> rec_fill g (Suc n) p =
     (rec_fill g n p)[n := g n (rec_fill g n p ! (n - 1)) (rec_fill g n p ! (n - 2))]"
  by (simp add: rec_fill_def)

lemma rec_fill_length [simp]: "length (rec_fill g n p) = length p"
proof (induction n)
  case 0
  then show ?case by (simp add: rec_fill_small)
next
  case (Suc n)
  then show ?case by (cases "2 \<le> n") (simp_all add: rec_fill_Suc rec_fill_small)
qed

lemma rec_fill_outside: "i < 2 \<or> n \<le> i \<Longrightarrow> rec_fill g n p ! i = p ! i"
proof (induction n)
  case 0
  then show ?case by (simp add: rec_fill_small)
next
  case (Suc n)
  show ?case
  proof (cases "2 \<le> n")
    case True
    with Suc show ?thesis by (auto simp: rec_fill_Suc)
  next
    case False
    then show ?thesis by (simp add: rec_fill_small)
  qed
qed

lemma rec_fill_nth:
  assumes p0: "p ! 0 = f 0" and p1: "p ! 1 = f 1" and len: "n \<le> length p"
    and step: "\<And>k. 2 \<le> k \<Longrightarrow> k < n \<Longrightarrow> f k = g k (f (k - 1)) (f (k - 2))"
    and i: "i < n"
  shows "rec_fill g n p ! i = f i"
  using len step i
proof (induction n arbitrary: i)
  case 0
  then show ?case by simp
next
  case (Suc n)
  show ?case
  proof (cases "2 \<le> n")
    case False
    then have "i = 0 \<or> i = 1" using Suc.prems(3) by auto
    then show ?thesis using p0 p1 by (auto simp: rec_fill_outside)
  next
    case True
    have ih: "\<And>j. j < n \<Longrightarrow> rec_fill g n p ! j = f j"
      using Suc.IH Suc.prems(1,2) by simp
    show ?thesis
    proof (cases "i = n")
      case False
      then show ?thesis using Suc.prems True ih by (simp add: rec_fill_Suc)
    next
      case i: True
      have "rec_fill g n p ! (n - 1) = f (n - 1)" "rec_fill g n p ! (n - 2) = f (n - 2)"
        using ih True by simp_all
      then show ?thesis using True Suc.prems i
        by (simp add: rec_fill_Suc)
    qed
  qed
qed

lemma posn_recur_fill: "posn_recur tw n p = rec_fill (\<lambda>i a b. tw * a - b) n p"
  by (simp add: posn_recur_def rec_fill_def)

lemma vel_recur_fill:
  "vel_recur tw n p v = rec_fill (\<lambda>i a b. tw * a + 2 * p ! (i - 1) - b) n v"
  by (simp add: vel_recur_def rec_fill_def)

lemma accel_recur_fill:
  "accel_recur tw n v =
     rec_fill (\<lambda>i a b. 4 * v ! (i - 1) + tw * a - b) n ((replicate maxCheby 0)[0 := 0, 1 := 0])"
  by (simp add: accel_recur_def rec_fill_def)

lemma posn_recur_cheb:
  assumes "p ! 0 = 1" "p ! 1 = tc" "n \<le> length p" "i < n"
  shows "posn_recur (tc + tc) n p ! i = cheb_T tc i"
  unfolding posn_recur_fill
  by (rule rec_fill_nth) (use assms in \<open>simp_all add: cheb_T_rec\<close>)

lemma vel_recur_cheb:
  assumes "v ! 0 = 0" "v ! 1 = 1" "n \<le> length v" "i < n"
    and "\<And>k. k < n \<Longrightarrow> p ! k = cheb_T tc k"
  shows "vel_recur (tc + tc) n p v ! i = cheb_V tc i"
  unfolding vel_recur_fill
  by (rule rec_fill_nth) (use assms in \<open>simp_all add: cheb_V_rec\<close>)

lemma accel_recur_cheb:
  assumes "n \<le> maxCheby" "i < n"
    and "\<And>k. k < n \<Longrightarrow> v ! k = cheb_V tc k"
  shows "accel_recur (tc + tc) n v ! i = cheb_A tc i"
  unfolding accel_recur_fill
  by (rule rec_fill_nth) (use assms in \<open>simp_all add: cheb_A_rec maxCheby_def\<close>)

lemma cheb_sum_cong:
  assumes "\<And>j. j0 \<le> j \<Longrightarrow> j < ncf \<Longrightarrow> poly ! j = poly' ! j"
  shows "cheb_sum poly cp j0 ncf = cheb_sum poly' cp j0 ncf"
  unfolding cheb_sum_def
  by (rule fold_cong) (use assms in auto)

lemma interp_components_cong:
  assumes "\<And>j. j < ncf \<Longrightarrow> poly ! j = poly' ! j"
  shows "interp_components poly coef ncf ncm l j0 base scale posvel =
         interp_components poly' coef ncf ncm l j0 base scale posvel"
proof -
  have h: "\<And>cp. cheb_sum poly cp j0 ncf = cheb_sum poly' cp j0 ncf"
    by (rule cheb_sum_cong) (use assms in auto)
  show ?thesis unfolding interp_components_def h ..
qed

lemma iinfo_invD:
  assumes "iinfo_inv ii"
  shows "length (posnCoeff ii) = maxCheby" "length (velCoeff ii) = maxCheby"
    "posnCoeff ii ! 0 = 1" "velCoeff ii ! 0 = 0" "velCoeff ii ! 1 = 1"
  using assms unfolding iinfo_inv_def by blast+

lemma iinfo_inv_twot:
  assumes "iinfo_inv ii" "- 1 \<le> posnCoeff ii ! 1" "posnCoeff ii ! 1 \<le> 1"
  shows "twot ii = posnCoeff ii ! 1 + posnCoeff ii ! 1"
  using assms unfolding iinfo_inv_def by blast

lemma iinfo_inv_posn:
  assumes "iinfo_inv ii" "- 1 \<le> posnCoeff ii ! 1" "posnCoeff ii ! 1 \<le> 1"
    and "2 \<le> i" "i < nPosnAvail ii" "i < maxCheby"
  shows "posnCoeff ii ! i = cheb_T (posnCoeff ii ! 1) i"
proof -
  have "\<forall>i \<in> {2..<min (nPosnAvail ii) maxCheby}. posnCoeff ii ! i = cheb_T (posnCoeff ii ! 1) i"
    using assms(1-3) unfolding iinfo_inv_def by blast
  moreover have "i \<in> {2..<min (nPosnAvail ii) maxCheby}" using assms(4-6) by simp
  ultimately show ?thesis by blast
qed

lemma iinfo_inv_vel:
  assumes "iinfo_inv ii" "- 1 \<le> posnCoeff ii ! 1" "posnCoeff ii ! 1 \<le> 1"
    and "2 \<le> i" "i < nVelAvail ii" "i < maxCheby"
  shows "velCoeff ii ! i = cheb_V (posnCoeff ii ! 1) i"
proof -
  have "\<forall>i \<in> {2..<min (nVelAvail ii) maxCheby}. velCoeff ii ! i = cheb_V (posnCoeff ii ! 1) i"
    using assms(1-3) unfolding iinfo_inv_def by blast
  moreover have "i \<in> {2..<min (nVelAvail ii) maxCheby}" using assms(4-6) by simp
  ultimately show ?thesis by blast
qed

lemma iinfo_invI:
  assumes "length (posnCoeff ii) = maxCheby" "length (velCoeff ii) = maxCheby"
    "posnCoeff ii ! 0 = 1" "velCoeff ii ! 0 = 0" "velCoeff ii ! 1 = 1"
    "- 1 \<le> posnCoeff ii ! 1 \<Longrightarrow> posnCoeff ii ! 1 \<le> 1 \<Longrightarrow>
       twot ii = posnCoeff ii ! 1 + posnCoeff ii ! 1"
    "\<And>i. - 1 \<le> posnCoeff ii ! 1 \<Longrightarrow> posnCoeff ii ! 1 \<le> 1 \<Longrightarrow>
       2 \<le> i \<Longrightarrow> i < nPosnAvail ii \<Longrightarrow> i < maxCheby \<Longrightarrow>
       posnCoeff ii ! i = cheb_T (posnCoeff ii ! 1) i"
    "\<And>i. - 1 \<le> posnCoeff ii ! 1 \<Longrightarrow> posnCoeff ii ! 1 \<le> 1 \<Longrightarrow>
       2 \<le> i \<Longrightarrow> i < nVelAvail ii \<Longrightarrow> i < maxCheby \<Longrightarrow>
       velCoeff ii ! i = cheb_V (posnCoeff ii ! 1) i"
  shows "iinfo_inv ii"
  unfolding iinfo_inv_def
proof (intro conjI impI ballI)
  fix i assume "- 1 \<le> posnCoeff ii ! 1 \<and> posnCoeff ii ! 1 \<le> 1"
    and "i \<in> {2..<min (nPosnAvail ii) maxCheby}"
  then show "posnCoeff ii ! i = cheb_T (posnCoeff ii ! 1) i"
    using assms(7) [of i] by simp
next
  fix i assume "- 1 \<le> posnCoeff ii ! 1 \<and> posnCoeff ii ! 1 \<le> 1"
    and "i \<in> {2..<min (nVelAvail ii) maxCheby}"
  then show "velCoeff ii ! i = cheb_V (posnCoeff ii ! 1) i"
    using assms(8) [of i] by simp
qed (use assms(1-6) in blast)+

lemma iinfo_set_tc_inv:
  assumes inv: "iinfo_inv ii" and tc: "- 1 \<le> tc" "tc \<le> 1"
  shows "iinfo_inv (iinfo_set_tc ii tc)" "posnCoeff (iinfo_set_tc ii tc) ! 1 = tc"
proof -
  note d = iinfo_invD [OF inv]
  show "posnCoeff (iinfo_set_tc ii tc) ! 1 = tc"
    using d(1) by (simp add: iinfo_set_tc_def maxCheby_def)
  show "iinfo_inv (iinfo_set_tc ii tc)"
  proof (cases "tc = posnCoeff ii ! 1")
    case True
    then show ?thesis using inv by (simp add: iinfo_set_tc_def)
  next
    case False
    show ?thesis
      by (rule iinfo_invI) (use False d in \<open>simp_all add: iinfo_set_tc_def maxCheby_def\<close>)
  qed
qed

lemma iinfo_fill_posn_inv:
  assumes inv: "iinfo_inv ii" and tc: "posnCoeff ii ! 1 = tc" "- 1 \<le> tc" "tc \<le> 1"
    and ncf: "ncf \<le> maxCheby"
  shows "iinfo_inv (iinfo_fill_posn ii ncf)"
    "posnCoeff (iinfo_fill_posn ii ncf) ! 1 = tc"
    "twot (iinfo_fill_posn ii ncf) = tc + tc"
    "\<And>j. j < ncf \<Longrightarrow> posnCoeff (iinfo_fill_posn ii ncf) ! j = cheb_T tc j"
proof -
  note d = iinfo_invD [OF inv]
  have tw: "twot ii = tc + tc" using iinfo_inv_twot [OF inv] tc by simp
  have old: "posnCoeff ii ! j = cheb_T tc j" if "j < nPosnAvail ii" "j < maxCheby" for j
  proof -
    consider "j = 0" | "j = 1" | "2 \<le> j" by linarith
    then show ?thesis
    proof cases
      case 1 then show ?thesis using d by simp
    next
      case 2 then show ?thesis using tc by simp
    next
      case 3
      then show ?thesis using iinfo_inv_posn [OF inv, of j] tc that by simp
    qed
  qed
  let ?p = "posn_recur (tc + tc) ncf (posnCoeff ii)"
  have new: "?p ! j = cheb_T tc j" if "j < ncf" for j
    by (rule posn_recur_cheb) (use d tc ncf that in auto)
  have q0: "?p ! 0 = 1" and q1: "?p ! 1 = tc"
    using d tc by (simp_all add: posn_recur_fill rec_fill_outside)
  have qlen: "length ?p = maxCheby" using d by (simp add: posn_recur_fill)
  show p1: "posnCoeff (iinfo_fill_posn ii ncf) ! 1 = tc"
    using q1 tc tw by (simp add: iinfo_fill_posn_def)
  show "twot (iinfo_fill_posn ii ncf) = tc + tc"
    using tw by (simp add: iinfo_fill_posn_def)
  show "posnCoeff (iinfo_fill_posn ii ncf) ! j = cheb_T tc j" if "j < ncf" for j
    using that new [of j] old [of j] tw ncf by (simp add: iinfo_fill_posn_def)
  show "iinfo_inv (iinfo_fill_posn ii ncf)"
  proof (cases "nPosnAvail ii < ncf")
    case False
    then show ?thesis using inv by (simp add: iinfo_fill_posn_def)
  next
    case True
    have eq: "iinfo_fill_posn ii ncf = ii\<lparr>posnCoeff := ?p, nPosnAvail := ncf\<rparr>"
      using True tw by (simp add: iinfo_fill_posn_def)
    show ?thesis unfolding eq
    proof (rule iinfo_invI)
      fix i
      assume "2 \<le> i" "i < nVelAvail (ii\<lparr>posnCoeff := ?p, nPosnAvail := ncf\<rparr>)" "i < maxCheby"
      then show "velCoeff (ii\<lparr>posnCoeff := ?p, nPosnAvail := ncf\<rparr>) ! i =
                 cheb_V (posnCoeff (ii\<lparr>posnCoeff := ?p, nPosnAvail := ncf\<rparr>) ! 1) i"
        using iinfo_inv_vel [OF inv, of i] tc q1 by simp
    qed (use d q0 q1 qlen tw new in simp_all)
  qed
qed

lemma iinfo_fill_vel_inv:
  assumes inv: "iinfo_inv ii" and tc: "posnCoeff ii ! 1 = tc" "- 1 \<le> tc" "tc \<le> 1"
    and ncf: "ncf \<le> maxCheby" and pos: "\<And>j. j < ncf \<Longrightarrow> posnCoeff ii ! j = cheb_T tc j"
  shows "iinfo_inv (iinfo_fill_vel ii ncf)"
    "posnCoeff (iinfo_fill_vel ii ncf) = posnCoeff ii"
    "twot (iinfo_fill_vel ii ncf) = tc + tc"
    "\<And>j. j < ncf \<Longrightarrow> velCoeff (iinfo_fill_vel ii ncf) ! j = cheb_V tc j"
proof -
  note d = iinfo_invD [OF inv]
  have tw: "twot ii = tc + tc" using iinfo_inv_twot [OF inv] tc by simp
  have old: "velCoeff ii ! j = cheb_V tc j" if "j < nVelAvail ii" "j < maxCheby" for j
  proof -
    consider "j = 0" | "j = 1" | "2 \<le> j" by linarith
    then show ?thesis
    proof cases
      case 1 then show ?thesis using d by simp
    next
      case 2 then show ?thesis using d by simp
    next
      case 3
      then show ?thesis using iinfo_inv_vel [OF inv, of j] tc that by simp
    qed
  qed
  let ?v = "vel_recur (tc + tc) ncf (posnCoeff ii) (velCoeff ii)"
  have new: "?v ! j = cheb_V tc j" if "j < ncf" for j
    by (rule vel_recur_cheb) (use d ncf that pos in auto)
  have q0: "?v ! 0 = 0" and q1: "?v ! 1 = 1"
    using d by (simp_all add: vel_recur_fill rec_fill_outside)
  have qlen: "length ?v = maxCheby" using d by (simp add: vel_recur_fill)
  show "posnCoeff (iinfo_fill_vel ii ncf) = posnCoeff ii"
    by (simp add: iinfo_fill_vel_def)
  show "twot (iinfo_fill_vel ii ncf) = tc + tc"
    using tw by (simp add: iinfo_fill_vel_def)
  show "velCoeff (iinfo_fill_vel ii ncf) ! j = cheb_V tc j" if "j < ncf" for j
    using that new [of j] old [of j] tw ncf by (simp add: iinfo_fill_vel_def)
  show "iinfo_inv (iinfo_fill_vel ii ncf)"
  proof (cases "nVelAvail ii < ncf")
    case False
    then show ?thesis using inv by (simp add: iinfo_fill_vel_def)
  next
    case True
    have eq: "iinfo_fill_vel ii ncf = ii\<lparr>velCoeff := ?v, nVelAvail := ncf\<rparr>"
      using True tw by (simp add: iinfo_fill_vel_def)
    show ?thesis unfolding eq
    proof (rule iinfo_invI)
      fix i
      assume "2 \<le> i" "i < nPosnAvail (ii\<lparr>velCoeff := ?v, nVelAvail := ncf\<rparr>)" "i < maxCheby"
      then show "posnCoeff (ii\<lparr>velCoeff := ?v, nVelAvail := ncf\<rparr>) ! i =
                 cheb_T (posnCoeff (ii\<lparr>velCoeff := ?v, nVelAvail := ncf\<rparr>) ! 1) i"
        using iinfo_inv_posn [OF inv, of i] tc by simp
    qed (use d q0 q1 qlen tw tc new in simp_all)
  qed
qed

lemma interp_steps:
  assumes inv: "iinfo_inv ii" and tc: "- 1 \<le> tc" "tc \<le> 1" and ncf: "ncf < maxCheby"
  defines "ii2 \<equiv> iinfo_fill_posn (iinfo_set_tc ii tc) ncf"
  defines "ii3 \<equiv> iinfo_fill_vel ii2 ncf"
  shows "iinfo_inv ii2" "iinfo_inv ii3"
    "posnCoeff ii2 ! 1 = tc" "posnCoeff ii3 ! 1 = tc"
    "interp_components (posnCoeff ii2) coef ncf ncm l j0 base scale posvel =
     interp_components (map (cheb_T tc) [0..<maxCheby]) coef ncf ncm l j0 base scale posvel"
    "interp_components (velCoeff ii3) coef ncf ncm l j0 base scale posvel =
     interp_components (map (cheb_V tc) [0..<maxCheby]) coef ncf ncm l j0 base scale posvel"
    "interp_components (accel_recur (twot ii3) ncf (velCoeff ii3)) coef ncf ncm l j0 base scale posvel =
     interp_components (map (cheb_A tc) [0..<maxCheby]) coef ncf ncm l j0 base scale posvel"
proof -
  note s1 = iinfo_set_tc_inv [OF inv tc]
  have le: "ncf \<le> maxCheby" using ncf by simp
  note s2 = iinfo_fill_posn_inv [OF s1(1) s1(2) tc le]
  show i2: "iinfo_inv ii2" and p2: "posnCoeff ii2 ! 1 = tc"
    using s2 by (simp_all add: ii2_def)
  have T: "\<And>j. j < ncf \<Longrightarrow> posnCoeff ii2 ! j = cheb_T tc j"
    using s2(4) by (simp add: ii2_def)
  note s3 = iinfo_fill_vel_inv [OF i2 p2 tc le T]
  show "iinfo_inv ii3" using s3 by (simp add: ii3_def)
  show "posnCoeff ii3 ! 1 = tc" using s3(2) p2 by (simp add: ii3_def)
  have V: "\<And>j. j < ncf \<Longrightarrow> velCoeff ii3 ! j = cheb_V tc j"
    using s3(4) by (simp add: ii3_def)
  have tw: "twot ii3 = tc + tc" using s3(3) by (simp add: ii3_def)
  show "interp_components (posnCoeff ii2) coef ncf ncm l j0 base scale posvel =
     interp_components (map (cheb_T tc) [0..<maxCheby]) coef ncf ncm l j0 base scale posvel"
    by (rule interp_components_cong) (use T ncf in simp)
  show "interp_components (velCoeff ii3) coef ncf ncm l j0 base scale posvel =
     interp_components (map (cheb_V tc) [0..<maxCheby]) coef ncf ncm l j0 base scale posvel"
    by (rule interp_components_cong) (use V ncf in simp)
  have A: "accel_recur (twot ii3) ncf (velCoeff ii3) ! j = cheb_A tc j" if "j < ncf" for j
    unfolding tw by (rule accel_recur_cheb) (use that le V in auto)
  show "interp_components (accel_recur (twot ii3) ncf (velCoeff ii3)) coef ncf ncm l j0 base scale posvel =
     interp_components (map (cheb_A tc) [0..<maxCheby]) coef ncf ncm l j0 base scale posvel"
    by (rule interp_components_cong) (use A ncf in simp)
qed

lemma interp_eq_stateless:
  assumes inv: "iinfo_inv ii"
  shows "map_sum id snd (interp ii coef t ncf ncm na velocityFlag posvel) =
         interp_stateless coef t ncf ncm na velocityFlag posvel"
proof -
  obtain l tc where ltc: "interp_l_tc na (fst t) = (l, tc)" by (cases "interp_l_tc na (fst t)")
  show ?thesis
  proof (cases "maxCheby \<le> ncf \<or> tc < - 1 \<or> 1 < tc")
    case True
    then show ?thesis by (auto simp: interp_def interp_stateless_def ltc Let_def)
  next
    case False
    then have tc: "- 1 \<le> tc" "tc \<le> 1" and ncf: "ncf < maxCheby" by auto
    note st = interp_steps [OF inv tc ncf]
    show ?thesis using False
      by (simp add: interp_def interp_stateless_def ltc Let_def st(5,6,7)
               split: sum.splits)
  qed
qed

lemma interp_inv:
  assumes inv: "iinfo_inv ii"
    and r: "interp ii coef t ncf ncm na velocityFlag posvel = Inr (ii1, out)"
  shows "iinfo_inv ii1"
proof -
  obtain l tc where ltc: "interp_l_tc na (fst t) = (l, tc)" by (cases "interp_l_tc na (fst t)")
  have np: "\<not> (maxCheby \<le> ncf \<or> tc < - 1 \<or> 1 < tc)"
    using r by (auto simp: interp_def ltc Let_def split: if_splits)
  then have tc: "- 1 \<le> tc" "tc \<le> 1" and ncf: "ncf < maxCheby" by auto
  note st = interp_steps [OF inv tc ncf]
  have "ii1 = iinfo_fill_posn (iinfo_set_tc ii tc) ncf \<or>
        ii1 = iinfo_fill_vel (iinfo_fill_posn (iinfo_set_tc ii tc) ncf) ncf"
    using r np by (auto simp: interp_def ltc Let_def split: sum.splits if_splits)
  then show ?thesis using st(1,2) by auto
qed

lemma init_iinfo_inv: "iinfo_inv init_iinfo"
  by (rule iinfo_invI) (simp_all add: init_iinfo_def maxCheby_def)

lemma interp_calls_stateless:
  "iinfo_inv ii \<Longrightarrow> interp_calls ii cs = stateless_calls cs"
proof (induction cs arbitrary: ii)
  case Nil
  then show ?case by simp
next
  case (Cons c cs)
  obtain coef t ncf ncm na vf posvel where c: "c = (coef, t, ncf, ncm, na, vf, posvel)"
    by (cases c)
  have eq: "map_sum id snd (interp ii coef t ncf ncm na vf posvel) =
            interp_stateless coef t ncf ncm na vf posvel"
    by (rule interp_eq_stateless [OF Cons.prems])
  show ?case
  proof (cases "interp ii coef t ncf ncm na vf posvel")
    case (Inl p)
    then have "interp_stateless coef t ncf ncm na vf posvel = Inl p" using eq by simp
    then show ?thesis using Inl by (simp add: c)
  next
    case (Inr r)
    obtain ii1 out where r: "r = (ii1, out)" by (cases r)
    have "iinfo_inv ii1" using interp_inv [OF Cons.prems] Inr r by blast
    then have ih: "interp_calls ii1 cs = stateless_calls cs" by (rule Cons.IH)
    have "interp_stateless coef t ncf ncm na vf posvel = Inr out" using eq Inr r by simp
    then show ?thesis using ih Inr r by (simp add: c)
  qed
qed

lemma interp_polys:
  assumes inv: "iinfo_inv ii" and tc: "- 1 \<le> tc" "tc \<le> 1" and ncf: "ncf < maxCheby"
  defines "ii2 \<equiv> iinfo_fill_posn (iinfo_set_tc ii tc) ncf"
  defines "ii3 \<equiv> iinfo_fill_vel ii2 ncf"
  shows "\<And>j. j < ncf \<Longrightarrow> posnCoeff ii2 ! j = cheb_T tc j"
    "\<And>j. j < ncf \<Longrightarrow> posnCoeff ii3 ! j = cheb_T tc j"
    "\<And>j. j < ncf \<Longrightarrow> velCoeff ii3 ! j = cheb_V tc j"
proof -
  note s1 = iinfo_set_tc_inv [OF inv tc]
  have le: "ncf \<le> maxCheby" using ncf by simp
  note s2 = iinfo_fill_posn_inv [OF s1(1) s1(2) tc le]
  have i2: "iinfo_inv ii2" and p2: "posnCoeff ii2 ! 1 = tc"
    using s2 by (simp_all add: ii2_def)
  show T: "\<And>j. j < ncf \<Longrightarrow> posnCoeff ii2 ! j = cheb_T tc j"
    using s2(4) by (simp add: ii2_def)
  note s3 = iinfo_fill_vel_inv [OF i2 p2 tc le T]
  show "\<And>j. j < ncf \<Longrightarrow> posnCoeff ii3 ! j = cheb_T tc j"
    using s3(2) T by (simp add: ii3_def)
  show "\<And>j. j < ncf \<Longrightarrow> velCoeff ii3 ! j = cheb_V tc j"
    using s3(4) by (simp add: ii3_def)
qed

lemma fold_Inl:
  assumes "\<And>x p. f x (Inl p) = Inl p"
  shows "fold f xs (Inl p) = Inl p"
  by (induction xs) (simp_all add: assms)

lemma fold_panic_kind:
  assumes absorb: "\<And>x p. f x (Inl p) = Inl p"
    and step: "\<And>x v p. f x (Inr v) = Inl p \<Longrightarrow> P p"
    and r: "fold f xs (Inr v) = Inl p"
  shows "P p"
  using r
proof (induction xs arbitrary: v)
  case Nil
  then show ?case by simp
next
  case (Cons x xs)
  show ?case
  proof (cases "f x (Inr v)")
    case (Inl q)
    then have "q = p" using Cons.prems by (simp add: fold_Inl [of f, OF absorb])
    then show ?thesis using step [OF Inl] by simp
  next
    case (Inr w)
    then show ?thesis using Cons by simp
  qed
qed

lemma interp_components_panic:
  assumes "interp_components poly coef ncf ncm l j0 base scale posvel = Inl p"
  shows "p = PanicIndex"
proof (rule fold_panic_kind [where P = "\<lambda>p. p = PanicIndex"])
  show "fold (\<lambda>i r. case r of
                    Inl p \<Rightarrow> Inl p
                  | Inr pv \<Rightarrow>
                      (let lo = coef_low ncf ncm l i in
                       if length coef < lo then Inl PanicIndex
                       else if j0 < ncf \<and> length coef - lo < ncf then Inl PanicIndex
                       else if length pv \<le> base + i then Inl PanicIndex
                       else Inr (pv[base + i := scale (cheb_sum poly (drop lo coef) j0 ncf)])))
       [0..<ncm] (Inr posvel) = Inl p"
    using assms by (simp add: interp_components_def)
qed (auto simp: Let_def split: if_splits)

lemma trunc_nonneg: "0 \<le> x \<Longrightarrow> trunc x = \<lfloor>x\<rfloor>"
  by (simp add: trunc_def)

lemma interp_tc_range:
  assumes "0 \<le> t0"
  shows "- 1 \<le> snd (interp_l_tc na t0) \<and> snd (interp_l_tc na t0) \<le> 1"
proof -
  define x where "x = real na * t0"
  define f where "f = real_of_int \<lfloor>x\<rfloor>"
  have nn: "0 \<le> x" using assms by (simp add: x_def)
  have fl: "f \<le> x" "x < f + 1"
    unfolding f_def by linarith+
  have "snd (interp_l_tc na t0) = 1 \<or> snd (interp_l_tc na t0) = 2 * (x - f) - 1"
    using nn by (auto simp: interp_l_tc_def Modf_def trunc_nonneg Let_def x_def f_def)
  then show ?thesis
  proof
    assume "snd (interp_l_tc na t0) = 1"
    then show ?thesis by simp
  next
    assume e: "snd (interp_l_tc na t0) = 2 * (x - f) - 1"
    have "- 1 \<le> 2 * (x - f) - 1" using fl by argo
    moreover have "2 * (x - f) - 1 \<le> 1" using fl by argo
    ultimately show ?thesis unfolding e by (rule conjI)
  qed
qed

lemma interp_tc_reach:
  assumes "- 1 \<le> tc" "tc \<le> 1"
  shows "snd (interp_l_tc 1 ((tc + 1) / 2)) = tc"
proof (cases "tc = 1")
  case True
  then show ?thesis
    by (simp add: interp_l_tc_def Modf_def trunc_def uint_of_float_def Let_def)
next
  case False
  then have "0 \<le> (tc + 1) / 2" "(tc + 1) / 2 < 1" using assms by auto
  then have fl: "\<lfloor>(tc + 1) / 2\<rfloor> = 0" by linarith
  have e: "2 * ((tc + 1) / 2) - 1 = tc" by argo
  have "interp_l_tc 1 ((tc + 1) / 2) = (0, 2 * ((tc + 1) / 2) - 1)"
    using \<open>0 \<le> (tc + 1) / 2\<close> fl
    by (simp add: interp_l_tc_def Modf_def trunc_def uint_of_float_def Let_def)
  then show ?thesis using e by simp
qed

lemma interp_result_cases:
  assumes r: "interp ii coef t ncf ncm na velocityFlag posvel = Inr (ii1, out)"
  defines "tc \<equiv> snd (interp_l_tc na (fst t))"
  shows "ncf < maxCheby" "- 1 \<le> tc" "tc \<le> 1"
    "ii1 = (if velocityFlag \<le> 1 then iinfo_fill_posn (iinfo_set_tc ii tc) ncf
            else iinfo_fill_vel (iinfo_fill_posn (iinfo_set_tc ii tc) ncf) ncf)"
proof -
  obtain l tc' where ltc: "interp_l_tc na (fst t) = (l, tc')" by (cases "interp_l_tc na (fst t)")
  have tc': "tc' = tc" by (simp add: tc_def ltc)
  show "ncf < maxCheby" "- 1 \<le> tc" "tc \<le> 1"
    using r by (auto simp: interp_def ltc tc' Let_def split: if_splits)
  show "ii1 = (if velocityFlag \<le> 1 then iinfo_fill_posn (iinfo_set_tc ii tc) ncf
            else iinfo_fill_vel (iinfo_fill_posn (iinfo_set_tc ii tc) ncf) ncf)"
    using r by (auto simp: interp_def ltc tc' Let_def split: if_splits sum.splits)
qed

lemma cheb_2: "cheb_T tc 2 = 2 * tc\<^sup>2 - 1" "cheb_V tc 2 = 4 * tc"
  by (simp_all add: numeral_2_eq_2 power2_eq_square del: One_nat_def)

lemma stateless_unit_block:
  assumes "posvel \<noteq> []"
  shows "interp_stateless [1, 0, 0] (1 / 2, t1) 3 1 1 1 posvel = Inr (posvel[0 := 1])"
proof -
  have l: "interp_l_tc (Suc 0) (1 / 2) = (0, 0)"
    by (simp add: interp_l_tc_def Modf_def trunc_def uint_of_float_def Let_def)
  have s: "cheb_sum (map (cheb_T 0) [0..<18]) [1, 0, 0] 0 3 = 1"
    by (simp add: cheb_sum_def upt_rec nth_Cons' del: upt_Suc)
  have c: "interp_components (map (cheb_T 0) [0..<18]) [1, 0, 0] 3 (Suc 0) 0 0 0 (\<lambda>x. x) posvel =
           Inr (posvel[0 := 1])"
    using assms by (simp add: interp_components_def coef_low_def u64_def s)
  show ?thesis
    by (simp add: interp_stateless_def l maxCheby_def c)
qed

lemma interp_counts:
  assumes r: "interp ii coef t ncf ncm na velocityFlag posvel = Inr (ii1, out)"
    and len: "length (posnCoeff ii) = maxCheby"
    and tc: "tc = snd (interp_l_tc na (fst t))"
  shows "posnCoeff ii1 ! 1 = tc"
    "nPosnAvail ii1 = (if tc \<noteq> posnCoeff ii ! 1 then max 2 ncf else max (nPosnAvail ii) ncf)"
    "nVelAvail ii1 =
       (if velocityFlag \<le> 1 then (if tc \<noteq> posnCoeff ii ! 1 then 2 else nVelAvail ii)
        else if tc \<noteq> posnCoeff ii ! 1 then max 2 ncf else max (nVelAvail ii) ncf)"
    "tc \<noteq> posnCoeff init_iinfo ! 1"
proof -
  note c = interp_result_cases [OF r, folded tc]
  show "tc \<noteq> posnCoeff init_iinfo ! 1"
    using c(2) by (simp add: init_iinfo_def maxCheby_def)
  show "posnCoeff ii1 ! 1 = tc"
    using c(4) len
    by (auto simp: iinfo_set_tc_def iinfo_fill_posn_def iinfo_fill_vel_def maxCheby_def
          posn_recur_fill rec_fill_outside)
  show "nPosnAvail ii1 = (if tc \<noteq> posnCoeff ii ! 1 then max 2 ncf else max (nPosnAvail ii) ncf)"
    using c(4)
    by (auto simp: iinfo_set_tc_def iinfo_fill_posn_def iinfo_fill_vel_def)
  show "nVelAvail ii1 =
       (if velocityFlag \<le> 1 then (if tc \<noteq> posnCoeff ii ! 1 then 2 else nVelAvail ii)
        else if tc \<noteq> posnCoeff ii ! 1 then max 2 ncf else max (nVelAvail ii) ncf)"
    using c(4)
    by (auto simp: iinfo_set_tc_def iinfo_fill_posn_def iinfo_fill_vel_def)
qed

subsection \<open>The loop of State and the request list\<close>

lemma fold_sum_inv:
  assumes absorb: "\<And>x p. f x (Inl p) = Inl p"
  shows "(\<And>x v w. x \<in> set xs \<Longrightarrow> P v \<Longrightarrow> f x (Inr v) = Inr w \<Longrightarrow> P w) \<Longrightarrow>
         P v \<Longrightarrow> fold f xs (Inr v) = Inr w \<Longrightarrow> P w"
proof (induction xs arbitrary: v)
  case Nil
  then show ?case by simp
next
  case (Cons x xs)
  have step: "\<And>y v w. y \<in> set xs \<Longrightarrow> P v \<Longrightarrow> f y (Inr v) = Inr w \<Longrightarrow> P w"
    using Cons.prems(1) by auto
  show ?case
  proof (cases "f x (Inr v)")
    case (Inl q)
    then show ?thesis using Cons.prems(3) by (simp add: fold_Inl [of f, OF absorb])
  next
    case (Inr u)
    have "P u" using Cons.prems(1) [of x v u] Cons.prems(2) Inr by simp
    moreover have "fold f xs (Inr u) = Inr w" using Cons.prems(3) Inr by simp
    ultimately show ?thesis using step by (rule Cons.IH [rotated])
  qed
qed

lemma state_item_Inl [simp]: "state_item ephem t list rec ni (Inl p) = Inl p"
  by (simp add: state_item_def)

lemma state_item_nut:
  assumes z: "list ! 10 = 0" "list ! 11 = 0" "list ! 12 = 0" "list ! 13 = 0"
    and i: "snd ni < 15"
    and r: "state_item ephem t list rec ni (Inr (ii, pv, pvs, nut)) = Inr (ii1, pv1, pvs1, nut1)"
  shows "nut1 = nut"
proof -
  have "snd ni < 10 \<or> snd ni = 14 \<or> snd ni = 10 \<or> snd ni = 11 \<or> snd ni = 12 \<or> snd ni = 13"
    using i by linarith
  then show ?thesis
    using r z
    by (auto simp: state_item_def item_quantities_def Let_def
             split: if_splits sum.splits prod.splits)
qed

lemma state_pairs_snd: "ni \<in> set state_pairs \<Longrightarrow> snd ni < 15"
  by (auto simp: state_pairs_def)

lemma State_compute_cases:
  assumes r: "State_compute e1 et t0 list pv nut bary = Inr (e3, pv3, nut3, err)"
  obtains e2 rec ii pvx pvs where
    "e2 = e1 \<or> e2 = e1\<lparr>pvsunT := et\<rparr>"
    "fold (state_item e2 (t0, ephemStep e1) list rec) state_pairs
       (Inr (iinfo e1, pv, pvsun e1, nut)) = Inr (ii, pvx, pvs, nut3)"
    "(if bary = 0 then bary_correct list pvs pvx else Inr pvx) = Inr pv3"
    "e3 = e2\<lparr>iinfo := ii, pvsun := pvs\<rparr>" "err = None"
proof -
  define rec where "rec = (pvsunT e1 \<noteq> et)"
  define e2 where "e2 = (if rec then e1\<lparr>pvsunT := et\<rparr> else e1)"
  have i2: "iinfo e2 = iinfo e1" "pvsun e2 = pvsun e1" by (simp_all add: e2_def)
  have s: "State_compute e1 et t0 list pv nut bary =
      (case fold (state_item e2 (t0, ephemStep e1) list rec) state_pairs
                (Inr (iinfo e1, pv, pvsun e1, nut)) of
         Inl p \<Rightarrow> Inl p
       | Inr (ii, pv1, pvs, nut1) \<Rightarrow>
           (case (if bary = 0 then bary_correct list pvs pv1 else Inr pv1) of
              Inl p \<Rightarrow> Inl p
            | Inr pv2 \<Rightarrow> Inr (e2\<lparr>iinfo := ii, pvsun := pvs\<rparr>, pv2, nut1, None)))"
    unfolding State_compute_def Let_def rec_def [symmetric] e2_def [symmetric] i2 ..
  obtain ii pvx pvs where
    f: "fold (state_item e2 (t0, ephemStep e1) list rec) state_pairs
          (Inr (iinfo e1, pv, pvsun e1, nut)) = Inr (ii, pvx, pvs, nut3)"
    and b: "(if bary = 0 then bary_correct list pvs pvx else Inr pvx) = Inr pv3"
    and e: "e3 = e2\<lparr>iinfo := ii, pvsun := pvs\<rparr>" "err = None"
    using r unfolding s by (auto split: sum.splits prod.splits)
  have "e2 = e1 \<or> e2 = e1\<lparr>pvsunT := et\<rparr>" by (simp add: e2_def)
  then show thesis using f b e by (rule that)
qed

lemma State_cases:
  assumes "State ephem et list pv nut bary = Inr (e3, pv3, nut3, err)"
  obtains (range) "et < ephemStart ephem \<or> ephemEnd ephem < et" "e3 = ephem" "pv3 = pv" "nut3 = nut"
      "err = Some ErrOutsideRange"
  | (load) lerr where "ephemStart ephem \<le> et" "et \<le> ephemEnd ephem"
      "load_record ephem (fst (record_index ephem et)) = (e3, Some lerr)" "pv3 = pv" "nut3 = nut"
      "err = Some lerr"
  | (compute) e1 where "ephemStart ephem \<le> et" "et \<le> ephemEnd ephem"
      "load_record ephem (fst (record_index ephem et)) = (e1, None)"
      "State_compute e1 et (snd (record_index ephem et)) list pv nut bary = Inr (e3, pv3, nut3, err)"
  using assms
  by (cases "et < ephemStart ephem \<or> ephemEnd ephem < et")
     (auto simp: State_def Let_def split: sum.splits prod.splits if_splits option.splits)

lemma State_compute_nut:
  assumes z: "list ! 10 = 0" "list ! 11 = 0" "list ! 12 = 0" "list ! 13 = 0"
    and r: "State_compute e1 et t0 list pv nut bary = Inr (e3, pv3, nut3, err)"
  shows "nut3 = nut"
proof -
  from r obtain e2 rec ii pvx pvs where
    f: "fold (state_item e2 (t0, ephemStep e1) list rec) state_pairs
       (Inr (iinfo e1, pv, pvsun e1, nut)) = Inr (ii, pvx, pvs, nut3)"
    by (rule State_compute_cases)
  have "(\<lambda>(ii, pv, pvs, n). n = nut) (ii, pvx, pvs, nut3)"
  proof (rule fold_sum_inv [where f = "state_item e2 (t0, ephemStep e1) list rec"
          and xs = state_pairs and P = "\<lambda>(ii, pv, pvs, n). n = nut", OF _ _ _ f])
    fix x v w
    assume "x \<in> set state_pairs" and "(case v of (ii, pv, pvs, n) \<Rightarrow> n = nut)"
      and "state_item e2 (t0, ephemStep e1) list rec x (Inr v) = Inr w"
    then show "case w of (ii, pv, pvs, n) \<Rightarrow> n = nut"
      using state_item_nut [OF z state_pairs_snd, of x e2 "(t0, ephemStep e1)" rec]
      by (cases v; cases w) auto
  qed simp_all
  then show ?thesis by simp
qed

lemma State_nut:
  assumes z: "list ! 10 = 0" "list ! 11 = 0" "list ! 12 = 0" "list ! 13 = 0"
    and r: "State ephem et list pv nut bary = Inr (e3, pv3, nut3, err)"
  shows "nut3 = nut"
  using r
proof (cases rule: State_cases)
  case (compute e1)
  then show ?thesis using State_compute_nut [OF z] by blast
qed simp_all

lemma mark_body_length [simp]: "length (mark_body lv k list) = length list"
  by (simp add: mark_body_def Let_def)

lemma mark_body_nth:
  "j < length list \<Longrightarrow>
   mark_body lv k list ! j =
     (if (k \<le> 9 \<and> j = k) \<or> (k = 9 \<and> j = 2) \<or> (k = 2 \<and> j = 9) \<or> (k = 12 \<and> j = 2)
      then lv else list ! j)"
  by (auto simp: mark_body_def Let_def nth_list_update)

lemma mark_body_commute:
  "mark_body lv a (mark_body lv b list) = mark_body lv b (mark_body lv a list)"
  by (rule nth_equalityI) (simp_all add: mark_body_nth)

lemma body_list_sym:
  assumes "1 \<le> t" "1 \<le> c"
  shows "body_list t c lv = body_list c t lv"
proof -
  have "body_list t c lv =
        mark_body lv (uint_of_int (c - 1)) (mark_body lv (uint_of_int (t - 1)) (replicate 14 0))"
    by (simp add: body_list_def upt_rec)
  moreover have "body_list c t lv =
        mark_body lv (uint_of_int (t - 1)) (mark_body lv (uint_of_int (c - 1)) (replicate 14 0))"
    by (simp add: body_list_def upt_rec)
  ultimately show ?thesis by (simp add: mark_body_commute)
qed

lemma body_list_special:
  "10 \<le> j \<Longrightarrow> j < 14 \<Longrightarrow> body_list t c lv ! j = 0"
  by (auto simp: body_list_def upt_rec mark_body_nth)

lemma adjust_pv_sym: "adjust_pv ephem t c list pv = adjust_pv ephem c t list pv"
proof -
  have a: "(t = 11 \<or> c = 11) = (c = 11 \<or> t = 11)" "(t = 12 \<or> c = 12) = (c = 12 \<or> t = 12)"
    "(t = 13 \<or> c = 13) = (c = 13 \<or> t = 13)"
    "(t * c = 30 \<and> t + c = 13) = (c * t = 30 \<and> c + t = 13)"
    by (auto simp: mult.commute add.commute)
  show ?thesis unfolding adjust_pv_def a ..
qed

lemma map2_minus_swap:
  "map2 (-) xs ys = map uminus (map2 (-) ys (xs :: real list))"
proof (induction xs arbitrary: ys)
  case Nil
  then show ?case by simp
next
  case (Cons x xs)
  then show ?case by (cases ys) simp_all
qed

lemma find_body_code: "ntarg \<le> 13 \<Longrightarrow> find (\<lambda>i. ntarg = int i + 14) [0..<4] = None"
  by (auto simp: upt_rec)

lemma find_special_code:
  "14 \<le> ntarg \<Longrightarrow> ntarg \<le> 17 \<Longrightarrow>
   find (\<lambda>i. ntarg = int i + 14) [0..<4] = Some (nat (ntarg - 14))"
  by (auto simp: upt_rec)

lemma find_False [simp]: "find (\<lambda>i. False) xs = None"
  by (induction xs) simp_all

lemma Pleph_body:
  assumes "1 \<le> t" "t \<le> 13" "1 \<le> c" "c \<le> 13" "t \<noteq> c"
  shows "Pleph ephem et t c cv =
           (case State ephem et (body_list t c (if cv \<noteq> 0 then 2 else 1))
                   (replicate 13 (replicate 6 0)) (replicate 6 0) 1 of
              Inl p \<Rightarrow> Inl p
            | Inr (ephem1, pv1, rrd1, Some err) \<Rightarrow> Inr (ephem1, Some rrd1, Some err)
            | Inr (ephem1, pv1, rrd1, None) \<Rightarrow>
                (case adjust_pv ephem1 t c (body_list t c (if cv \<noteq> 0 then 2 else 1)) pv1 of
                   Inl p \<Rightarrow> Inl p
                 | Inr pv2 \<Rightarrow>
                     (let m = uint_of_int ((if cv \<noteq> 0 then 2 else 1) * 3)
                      in if length rrd1 < m \<or> length (pv2 ! nat (t - 1)) < m
                            \<or> length (pv2 ! nat (c - 1)) < m
                         then Inl PanicIndex
                         else Inr (ephem1,
                                   Some (map2 (-) (take m (pv2 ! nat (t - 1)))
                                           (take m (pv2 ! nat (c - 1))) @ drop m rrd1),
                                   None))))"
  using assms by (simp add: Pleph_def Let_def find_body_code)

subsection \<open>Errors of State\<close>

lemma load_record_error:
  "load_record ephem nr = (ephem1, Some err) \<Longrightarrow> err = ErrFileSeek \<or> err = ErrFileRead"
  by (auto simp: load_record_def Let_def split: if_splits)

lemma State_error_cases:
  assumes "State ephem et list pv nut bary = Inr (ephem1, pv1, nut1, Some err)"
  shows "err = ErrOutsideRange \<or> err = ErrFileSeek \<or> err = ErrFileRead"
  using assms
proof (cases rule: State_cases)
  case (load lerr)
  then show ?thesis using load_record_error by blast
next
  case (compute e1)
  then show ?thesis by (elim State_compute_cases) simp
qed simp

lemma Pleph_special_quantity:
  assumes tg: "14 \<le> ntarg" "ntarg \<le> 17" and ne: "ntarg \<noteq> ncent"
  shows "((\<exists>e1 r. Pleph ephem et ntarg ncent cv = Inr (e1, r, Some ErrQuantityNotInEphemeris))
            \<longleftrightarrow> ipt ephem ! nat (ntarg - 3) ! 1 = 0) \<and>
         (ipt ephem ! nat (ntarg - 3) ! 1 = 0 \<longrightarrow>
            Pleph ephem et ntarg ncent cv = Inr (ephem, None, Some ErrQuantityNotInEphemeris)) \<and>
         (ipt ephem ! nat (ntarg - 3) ! 1 \<noteq> 0 \<longrightarrow>
            Pleph ephem et ntarg ncent cv =
              (case State ephem et ((replicate 14 0)[nat (ntarg - 4) := (if cv \<noteq> 0 then 2 else 1)])
                      (replicate 13 (replicate 6 0)) (replicate 6 0) 0 of
                 Inl p \<Rightarrow> Inl p
               | Inr (e1, pv1, rrd1, Some err) \<Rightarrow> Inr (e1, None, Some err)
               | Inr (e1, pv1, rrd1, None) \<Rightarrow> Inr (e1, Some rrd1, None)))"
proof -
  have i1: "nat (ntarg - 14) + 11 = nat (ntarg - 3)" and i2: "nat (ntarg - 14) + 10 = nat (ntarg - 4)"
    using tg by auto
  define S where "S = State ephem et ((replicate 14 0)[nat (ntarg - 4) := (if cv \<noteq> 0 then 2 else 1)])
                      (replicate 13 (replicate 6 0)) (replicate 6 0) 0"
  have P: "Pleph ephem et ntarg ncent cv =
             (if ipt ephem ! nat (ntarg - 3) ! 1 \<noteq> 0
              then (case S of
                      Inl p \<Rightarrow> Inl p
                    | Inr (e1, pv1, rrd1, Some err) \<Rightarrow> Inr (e1, None, Some err)
                    | Inr (e1, pv1, rrd1, None) \<Rightarrow> Inr (e1, Some rrd1, None))
              else Inr (ephem, None, Some ErrQuantityNotInEphemeris))"
    using ne by (simp add: Pleph_def Let_def find_special_code [OF tg] i1 i2 S_def word_gt_0)
  have no: "S \<noteq> Inr (e1, pv1, rrd1, Some ErrQuantityNotInEphemeris)" for e1 pv1 rrd1
    using State_error_cases [of ephem et _ _ _ 0 e1 pv1 rrd1 ErrQuantityNotInEphemeris]
    unfolding S_def by auto
  have a: "(\<exists>e1 r. Pleph ephem et ntarg ncent cv = Inr (e1, r, Some ErrQuantityNotInEphemeris))
            \<longleftrightarrow> ipt ephem ! nat (ntarg - 3) ! 1 = 0"
    using no by (auto simp: P split: sum.splits option.splits prod.splits)
  show ?thesis using a P by (simp add: S_def)
qed

subsection \<open>Record loading\<close>

lemma load_record_frame:
  assumes "load_record ephem nr = (e1, err)"
  shows "ephemStart e1 = ephemStart ephem" "ephemEnd e1 = ephemEnd ephem"
    "ephemStep e1 = ephemStep ephem" "recsize e1 = recsize ephem" "ifile e1 = ifile ephem"
    "length (cache e1) = length (cache ephem)" "currCacheLoc e1 = nr"
    "iolog e1 = iolog ephem @ reload_events ephem nr"
  using assms
  by (auto simp: load_record_def reload_events_def swapBytes64Slice_def Let_def split: if_splits)

lemma State_compute_frame:
  assumes "State_compute e1 et t0 list pv nut bary = Inr (e3, pv3, nut3, err)"
  shows "ephemStart e3 = ephemStart e1" "ephemEnd e3 = ephemEnd e1"
    "ephemStep e3 = ephemStep e1" "recsize e3 = recsize e1" "ifile e3 = ifile e1"
    "cache e3 = cache e1" "currCacheLoc e3 = currCacheLoc e1" "iolog e3 = iolog e1"
proof -
  from assms obtain e2 rec ii pvx pvs where
    e: "e2 = e1 \<or> e2 = e1\<lparr>pvsunT := et\<rparr>" "e3 = e2\<lparr>iinfo := ii, pvsun := pvs\<rparr>"
    and f: "fold (state_item e2 (t0, ephemStep e1) list rec) state_pairs
       (Inr (iinfo e1, pv, pvsun e1, nut)) = Inr (ii, pvx, pvs, nut3)"
    by (rule State_compute_cases)
  show "ephemStart e3 = ephemStart e1" "ephemEnd e3 = ephemEnd e1"
    "ephemStep e3 = ephemStep e1" "recsize e3 = recsize e1" "ifile e3 = ifile e1"
    "cache e3 = cache e1" "currCacheLoc e3 = currCacheLoc e1" "iolog e3 = iolog e1"
    using e by auto
qed

lemma State_frame:
  assumes r: "State ephem et list pv nut bary = Inr (e3, pv3, nut3, err)"
    and rg: "ephemStart ephem \<le> et" "et \<le> ephemEnd ephem"
  shows "ephemStart e3 = ephemStart ephem" "ephemEnd e3 = ephemEnd ephem"
    "ephemStep e3 = ephemStep ephem" "recsize e3 = recsize ephem" "ifile e3 = ifile ephem"
    "length (cache e3) = length (cache ephem)"
    "currCacheLoc e3 = fst (record_index ephem et)"
    "iolog e3 = iolog ephem @ reload_events ephem (fst (record_index ephem et))"
proof -
  have "ephemStart e3 = ephemStart ephem \<and> ephemEnd e3 = ephemEnd ephem \<and>
    ephemStep e3 = ephemStep ephem \<and> recsize e3 = recsize ephem \<and> ifile e3 = ifile ephem \<and>
    length (cache e3) = length (cache ephem) \<and>
    currCacheLoc e3 = fst (record_index ephem et) \<and>
    iolog e3 = iolog ephem @ reload_events ephem (fst (record_index ephem et))"
    using r
  proof (cases rule: State_cases)
    case range
    then show ?thesis using rg by auto
  next
    case (load lerr)
    then show ?thesis using load_record_frame [OF load(3)] by simp
  next
    case (compute e1)
    then show ?thesis
      using load_record_frame [OF compute(3)] State_compute_frame [OF compute(4)] by simp
  qed
  then show "ephemStart e3 = ephemStart ephem" "ephemEnd e3 = ephemEnd ephem"
    "ephemStep e3 = ephemStep ephem" "recsize e3 = recsize ephem" "ifile e3 = ifile ephem"
    "length (cache e3) = length (cache ephem)"
    "currCacheLoc e3 = fst (record_index ephem et)"
    "iolog e3 = iolog ephem @ reload_events ephem (fst (record_index ephem et))"
    by simp_all
qed

lemma record_index_cong:
  "ephemStart e1 = ephemStart e \<Longrightarrow> ephemStep e1 = ephemStep e \<Longrightarrow>
   record_index e1 et = record_index e et"
  by (simp add: record_index_def blockLoc_def)

lemma blockLoc_nonneg:
  assumes "ephemStart e \<le> et" "0 < ephemStep e"
  shows "0 \<le> blockLoc e et"
proof -
  have "0 \<le> f64_sub et (ephemStart e)"
    unfolding f64_sub_def using assms(1) by (intro round64_nonneg) simp
  then show ?thesis
    unfolding blockLoc_def f64_div_def using assms(2) by (intro round64_nonneg) simp
qed

lemma record_index_floor:
  assumes b0: "0 \<le> blockLoc e et" and lt: "blockLoc e et < 2 ^ 32"
  shows "record_index e et =
           (let b = blockLoc e et
            in if b = of_int \<lfloor>b\<rfloor> \<and> \<lfloor>b\<rfloor> \<noteq> 0 then (word_of_int (\<lfloor>b\<rfloor> - 1), 1)
               else (word_of_int \<lfloor>b\<rfloor>, b - of_int \<lfloor>b\<rfloor>))"
proof -
  define b where "b = blockLoc e et"
  define k where "k = \<lfloor>b\<rfloor>"
  have b0: "0 \<le> b" using b0 by (simp add: b_def)
  have k0: "0 \<le> k" using b0 by (simp add: k_def)
  have "b < 2 ^ 32" using lt by (simp add: b_def)
  then have k1: "k < 2 ^ 32" unfolding k_def by (simp add: floor_less_iff)
  have u: "unat (word_of_int k :: 32 word) = nat k"
    using k0 k1 by (simp add: unat_eq_nat_uint uint_word_of_int take_bit_eq_mod)
  have "(word_of_int k :: 32 word) = 0 \<longleftrightarrow> nat k = 0"
    unfolding u [symmetric] by (simp add: unat_eq_zero)
  then have z: "(word_of_int k :: 32 word) = 0 \<longleftrightarrow> k = 0"
    using k0 by simp
  have r: "real (nat k) = of_int k" using k0 by simp
  have t: "trunc b = k" using b0 by (simp add: trunc_def k_def)
  show ?thesis
    unfolding record_index_def uint32_of_float_def Let_def b_def [symmetric] t u r z
    by (auto simp: k_def)
qed

lemma load_record_seek_error:
  "load_record e nr = (e1, err) \<Longrightarrow>
   (err = Some ErrFileSeek) =
     (nr \<noteq> currCacheLoc e \<and> \<not> seekable (ifile e) (uint ((nr + 2) * recsize e)))"
  by (auto simp: load_record_def Let_def split: if_splits)

lemma State_seek_error:
  assumes r: "State e et list pv nut bary = Inr (e3, pv3, nut3, err)"
    and rg: "ephemStart e \<le> et" "et \<le> ephemEnd e"
  shows "(err = Some ErrFileSeek) =
           (fst (record_index e et) \<noteq> currCacheLoc e \<and>
            \<not> seekable (ifile e) (uint ((fst (record_index e et) + 2) * recsize e)))"
  using r
proof (cases rule: State_cases)
  case range
  then show ?thesis using rg by auto
next
  case (load lerr)
  then show ?thesis using load_record_seek_error [OF load(3)] by simp
next
  case (compute e1)
  have "err = None" using compute(4) by (rule State_compute_cases)
  then show ?thesis using load_record_seek_error [OF compute(3)] by simp
qed

subsection \<open>Record geometry\<close>

lemma kernel_fold:
  assumes "\<And>i. i < n \<Longrightarrow> 0 \<le> D i"
  shows "fold (\<lambda>i k. k + 2 * A i * B i * word_of_int (D i)) [0..<n] (word_of_nat c :: 32 word) =
         word_of_nat (c + (\<Sum>i<n. 2 * unat (A i) * unat (B i) * nat (D i)))"
  using assms
proof (induction n)
  case 0
  then show ?case by simp
next
  case (Suc n)
  have d: "(word_of_int (D n) :: 32 word) = word_of_nat (nat (D n))"
    using Suc.prems [of n] by simp
  have "fold (\<lambda>i k. k + 2 * A i * B i * word_of_int (D i)) [0..<n] (word_of_nat c :: 32 word) =
         word_of_nat (c + (\<Sum>i<n. 2 * unat (A i) * unat (B i) * nat (D i)))"
    using Suc by simp
  then show ?case by (simp add: d)
qed

lemma init_geometry_kernel:
  "kernelSize (init_geometry ephem) = word_of_nat (kernel_exact ephem)"
proof -
  have "fold (\<lambda>i k. k + 2 * (ipt ephem ! i ! 1) * (ipt ephem ! i ! 2)
                     * word_of_int (quantityDimension (int i))) [0..<15] (word_of_nat 4 :: 32 word) =
        word_of_nat (4 + (\<Sum>i<15. 2 * unat (ipt ephem ! i ! 1) * unat (ipt ephem ! i ! 2)
                                   * nat (quantityDimension (int i))))"
    by (rule kernel_fold) (simp add: quantityDimension_def)
  moreover have "nat (quantityDimension (int i)) = (if i = 11 then 2 else if i = 14 then 1 else 3)"
    for i by (simp add: quantityDimension_def)
  ultimately show ?thesis
    by (simp add: init_geometry_def kernel_exact_def Let_def interv_sum_list_conv_sum_set_nat
          atLeast0LessThan)
qed

lemma init_geometry_unat:
  "unat (kernelSize (init_geometry ephem)) = kernel_exact ephem mod 2 ^ 32"
  "unat (recsize (init_geometry ephem)) = (unat (kernelSize (init_geometry ephem)) * 4) mod 2 ^ 32"
  "unat (ncoeff (init_geometry ephem)) = unat (kernelSize (init_geometry ephem)) div 2"
proof -
  show "unat (kernelSize (init_geometry ephem)) = kernel_exact ephem mod 2 ^ 32"
    by (simp add: init_geometry_kernel unat_of_nat)
  have r: "recsize (init_geometry ephem) = kernelSize (init_geometry ephem) * 4"
    and n: "ncoeff (init_geometry ephem) = kernelSize (init_geometry ephem) div 2"
    by (simp_all add: init_geometry_def Let_def)
  show "unat (recsize (init_geometry ephem)) =
            (unat (kernelSize (init_geometry ephem)) * 4) mod 2 ^ 32"
    unfolding r by (simp add: unat_word_ariths)
  show "unat (ncoeff (init_geometry ephem)) = unat (kernelSize (init_geometry ephem)) div 2"
    unfolding n by (simp add: unat_div)
qed

subsection \<open>Successive calls on one handle\<close>

lemma interp_indep:
  assumes inv: "iinfo_inv ii" and inv': "iinfo_inv ii'"
    and r: "interp ii coef t ncf ncm na vf posvel = Inr (ii1, out)"
  shows "iinfo_inv ii1 \<and> (\<exists>ii1'. interp ii' coef t ncf ncm na vf posvel = Inr (ii1', out) \<and> iinfo_inv ii1')"
proof -
  have "map_sum id snd (interp ii' coef t ncf ncm na vf posvel) =
        map_sum id snd (interp ii coef t ncf ncm na vf posvel)"
    using interp_eq_stateless [OF inv] interp_eq_stateless [OF inv'] by simp
  then obtain x where x: "interp ii' coef t ncf ncm na vf posvel = Inr (x, out)"
    using r by (cases "interp ii' coef t ncf ncm na vf posvel") auto
  show ?thesis using interp_inv [OF inv r] interp_inv [OF inv' x] x by blast
qed

lemma state_item_again:
  assumes st: "ipt e' = ipt e" "cache e' = cache e" "au e' = au e"
    and inv: "iinfo_inv ii" and inv': "iinfo_inv ii'"
    and r: "state_item e t list rc ni (Inr (ii, pv, pvs, nut)) = Inr (ii1, pv1, pvs1, nut1)"
  shows "iinfo_inv ii1 \<and>
         (\<exists>ii1'. state_item e' t list False ni (Inr (ii', pv, pvs', nut)) = Inr (ii1', pv1, pvs', nut1)
                  \<and> iinfo_inv ii1')"
proof (cases "snd ni = 14")
  case True
  have a: "state_item e' t list False ni (Inr (ii', pv, pvs', nut)) = Inr (ii', pv, pvs', nut)"
    using True by (simp add: state_item_def item_quantities_def Let_def)
  have "iinfo_inv ii1 \<and> pv1 = pv \<and> nut1 = nut"
    using r True inv
    by (auto simp: state_item_def item_quantities_def Let_def
             split: if_splits sum.splits prod.splits dest: interp_inv)
  then show ?thesis using a inv' by simp
next
  case False
  define i where "i = snd ni"
  define q where "q = list ! i"
  define iptr where "iptr = item_iptr e i"
  have ip: "item_iptr e' i = iptr" using st by (simp add: iptr_def item_iptr_def)
  have iq: "item_quantities list rc i = q" "item_quantities list False i = q"
    using False by (simp_all add: item_quantities_def i_def q_def)
  show ?thesis
  proof (cases "fst ni = unat (iptr ! 2) \<and> q \<noteq> 0")
    case skip: False
    then have "state_item e t list rc ni (Inr (ii, pv, pvs, nut)) = Inr (ii, pv, pvs, nut)"
      and "state_item e' t list False ni (Inr (ii', pv, pvs', nut)) = Inr (ii', pv, pvs', nut)"
      using ip iq by (auto simp: state_item_def Let_def i_def [symmetric] iptr_def [symmetric])
    then show ?thesis using r inv inv' by simp
  next
    case True
    define dest where "dest = (if i < 10 then pv ! i else nut)"
    define lo where "lo = unat (iptr ! 0 - 1)"
    define call where "call = (\<lambda>j. interp j (map float64_val (drop lo (cache e))) t (unat (iptr ! 1))
                              (nat (quantityDimension (int i + 1))) (fst ni) q dest)"
    define fin where "fin = (\<lambda>dest1. if i < 10
                                  then scale_prefix (1 / au e) (uint_of_int (q * 3)) dest1
                                  else Inr dest1)"
    have i14: "i \<noteq> 14" using False by (simp add: i_def)
    have s: "state_item e t list rc ni (Inr (j, pv, p, nut)) =
               (if length (cache e) < lo then Inl PanicIndex
                else case call j of
                       Inl x \<Rightarrow> Inl x
                     | Inr (ii1, dest1) \<Rightarrow>
                         (case fin dest1 of
                            Inl x \<Rightarrow> Inl x
                          | Inr dest2 \<Rightarrow> Inr (if i < 10 then (ii1, pv[i := dest2], p, nut)
                                             else (ii1, pv, p, dest2))))" for j p
      using True i14
      by (auto simp: state_item_def Let_def i_def [symmetric] iptr_def [symmetric] dest_def
            lo_def call_def fin_def iq split: sum.splits prod.splits)
    have s': "state_item e' t list False ni (Inr (j, pv, p, nut)) =
               (if length (cache e) < lo then Inl PanicIndex
                else case call j of
                       Inl x \<Rightarrow> Inl x
                     | Inr (ii1, dest1) \<Rightarrow>
                         (case fin dest1 of
                            Inl x \<Rightarrow> Inl x
                          | Inr dest2 \<Rightarrow> Inr (if i < 10 then (ii1, pv[i := dest2], p, nut)
                                             else (ii1, pv, p, dest2))))" for j p
      using True i14
      by (auto simp: state_item_def Let_def i_def [symmetric] dest_def
            lo_def call_def fin_def iq ip st split: sum.splits prod.splits)
    from r obtain dest1 dest2 where
      lo: "\<not> length (cache e) < lo" and c: "call ii = Inr (ii1, dest1)" and f: "fin dest1 = Inr dest2"
      and res: "(pv1, pvs1, nut1) = (if i < 10 then (pv[i := dest2], pvs, nut) else (pv, pvs, dest2))"
      unfolding s by (auto split: if_splits sum.splits prod.splits)
    from interp_indep [OF inv inv' c [unfolded call_def]] obtain ii1' where
      c': "call ii' = Inr (ii1', dest1)" and i1: "iinfo_inv ii1" "iinfo_inv ii1'"
      unfolding call_def by blast
    have "state_item e' t list False ni (Inr (ii', pv, pvs', nut)) = Inr (ii1', pv1, pvs', nut1)"
      unfolding s' using lo c' f res by (auto split: if_splits)
    then show ?thesis using i1 by blast
  qed
qed

lemma fold_state_item_again:
  assumes st: "ipt e' = ipt e" "cache e' = cache e" "au e' = au e"
  shows "iinfo_inv ii \<Longrightarrow> iinfo_inv ii' \<Longrightarrow>
         fold (state_item e t list rc) xs (Inr (ii, pv, pvs, nut)) = Inr (iiN, pvN, pvsN, nutN) \<Longrightarrow>
         iinfo_inv iiN \<and>
         (\<exists>iiN'. fold (state_item e' t list False) xs (Inr (ii', pv, pvs', nut)) =
                    Inr (iiN', pvN, pvs', nutN) \<and> iinfo_inv iiN')"
proof (induction xs arbitrary: ii ii' pv pvs nut)
  case Nil
  then show ?case by simp
next
  case (Cons x xs)
  show ?case
  proof (cases "state_item e t list rc x (Inr (ii, pv, pvs, nut))")
    case (Inl p)
    then show ?thesis
      using Cons.prems(3) by (simp add: fold_Inl [of "state_item e t list rc", OF state_item_Inl])
  next
    case (Inr v)
    obtain ii1 pv1 pvs1 nut1 where v: "v = (ii1, pv1, pvs1, nut1)" by (cases v)
    from state_item_again [OF st Cons.prems(1,2) Inr [unfolded v], of pvs'] obtain ii1' where
      a: "iinfo_inv ii1" "iinfo_inv ii1'"
        "state_item e' t list False x (Inr (ii', pv, pvs', nut)) = Inr (ii1', pv1, pvs', nut1)"
      by blast
    have "fold (state_item e t list rc) xs (Inr (ii1, pv1, pvs1, nut1)) = Inr (iiN, pvN, pvsN, nutN)"
      using Cons.prems(3) Inr v by simp
    from Cons.IH [OF a(1,2) this] show ?thesis using a(3) by simp
  qed
qed

lemma State_compute_again:
  assumes inv: "iinfo_inv (iinfo eL)"
    and r: "State_compute eL et t0 list pv nut bary = Inr (e1, pv1, nut1, err)"
  shows "\<exists>e2. State_compute e1 et t0 list pv nut bary = Inr (e2, pv1, nut1, None) \<and>
              pvsun e2 = pvsun e1 \<and> emrat e2 = emrat e1 \<and> iinfo_inv (iinfo e2)"
proof -
  define rc where "rc = (pvsunT eL \<noteq> et)"
  define e2L where "e2L = (if rc then eL\<lparr>pvsunT := et\<rparr> else eL)"
  have i2: "iinfo e2L = iinfo eL" "pvsun e2L = pvsun eL" by (simp_all add: e2L_def)
  have s: "State_compute eL et t0 list pv nut bary =
      (case fold (state_item e2L (t0, ephemStep eL) list rc) state_pairs
                (Inr (iinfo eL, pv, pvsun eL, nut)) of
         Inl p \<Rightarrow> Inl p
       | Inr (ii, pv1, pvs, nut1) \<Rightarrow>
           (case (if bary = 0 then bary_correct list pvs pv1 else Inr pv1) of
              Inl p \<Rightarrow> Inl p
            | Inr pv2 \<Rightarrow> Inr (e2L\<lparr>iinfo := ii, pvsun := pvs\<rparr>, pv2, nut1, None)))"
    unfolding State_compute_def Let_def rc_def [symmetric] e2L_def [symmetric] i2 ..
  obtain ii pvx pvs where
    f: "fold (state_item e2L (t0, ephemStep eL) list rc) state_pairs
          (Inr (iinfo eL, pv, pvsun eL, nut)) = Inr (ii, pvx, pvs, nut1)"
    and b: "(if bary = 0 then bary_correct list pvs pvx else Inr pvx) = Inr pv1"
    and e: "e1 = e2L\<lparr>iinfo := ii, pvsun := pvs\<rparr>"
    using r unfolding s by (auto split: sum.splits prod.splits)
  have st: "ipt e1 = ipt e2L" "cache e1 = cache e2L" "au e1 = au e2L" by (simp_all add: e)
  have inv1: "iinfo_inv ii"
    using fold_state_item_again [OF st inv inv f] by blast
  obtain ii' where
    f': "fold (state_item e1 (t0, ephemStep eL) list False) state_pairs
           (Inr (ii, pv, pvs, nut)) = Inr (ii', pvx, pvs, nut1)"
    and inv': "iinfo_inv ii'"
    using fold_state_item_again [OF st inv inv1 f, of pvs] by blast
  have t: "pvsunT e1 = et" "ephemStep e1 = ephemStep eL" "iinfo e1 = ii" "pvsun e1 = pvs"
    by (auto simp: e e2L_def rc_def)
  have "State_compute e1 et t0 list pv nut bary =
          Inr (e1\<lparr>iinfo := ii', pvsun := pvs\<rparr>, pv1, nut1, None)"
    using b by (simp add: State_compute_def Let_def t f')
  then show ?thesis using inv' t by simp
qed

lemma load_record_iinfo: "load_record ephem nr = (e1, err) \<Longrightarrow> iinfo e1 = iinfo ephem"
  by (auto simp: load_record_def Let_def split: if_splits)

lemma State_again:
  assumes inv: "iinfo_inv (iinfo ephem)"
    and r: "State ephem et list pv nut bary = Inr (e1, pv1, nut1, None)"
  shows "\<exists>e2. State e1 et list pv nut bary = Inr (e2, pv1, nut1, None) \<and>
              pvsun e2 = pvsun e1 \<and> emrat e2 = emrat e1 \<and> iinfo_inv (iinfo e2)"
  using r
proof (cases rule: State_cases)
  case (compute eL)
  note fr = State_frame [OF r compute(1,2)]
  have ri: "record_index e1 et = record_index ephem et"
    by (rule record_index_cong) (simp_all add: fr)
  have ld: "load_record e1 (fst (record_index ephem et)) = (e1, None)"
    by (simp add: load_record_def fr)
  have invL: "iinfo_inv (iinfo eL)" using load_record_iinfo [OF compute(3)] inv by simp
  obtain nr t0 where nt: "record_index ephem et = (nr, t0)" by (cases "record_index ephem et")
  have "State e1 et list pv nut bary =
          State_compute e1 et (snd (record_index ephem et)) list pv nut bary"
    using compute(1,2) ld by (simp add: State_def fr ri nt)
  then show ?thesis using State_compute_again [OF invL compute(4)] by simp
qed simp_all

lemma adjust_pv_cong:
  assumes "pvsun e' = pvsun e" "emrat e' = emrat e"
  shows "adjust_pv e' t c list pv = adjust_pv e t c list pv"
  unfolding adjust_pv_def assms ..

subsection \<open>Evaluation on the example handles\<close>

lemma upt_0_numeral: "[0..<numeral n] = 0 # [Suc 0..<numeral n]"
  by (simp add: upt_rec)

lemma upt_1_numeral:
  "[Suc 0..<numeral n] = (if Suc 0 < numeral n then Suc 0 # [2..<numeral n] else [])"
  by (simp add: upt_rec [of "Suc 0"] numeral_2_eq_2)

lemma replicate_numeral: "replicate (numeral k) x = x # replicate (pred_numeral k) x"
  by (simp add: numeral_eq_Suc)

lemma list_update_numeral: "(x # xs)[numeral k := y] = x # xs[pred_numeral k := y]"
  by (simp add: numeral_eq_Suc)

lemma float64_vals:
  "float64_val 0 = 0" "float64_val 0x3FF0000000000000 = 1" "float64_val 0x4000000000000000 = 2"
  "float64_val 0x3FE0000000000000 = 1 / 2" "float64_val 0x4008000000000000 = 3"
  by (simp_all add: float64_val_def)

lemmas list_eval = upt_0_numeral upt_1_numeral replicate_numeral list_update_numeral list_update_code

lemmas interp_eval = interp_def maxCheby_def interp_l_tc_def Modf_def trunc_def uint_of_float_def
  u64_def posn_recur_def vel_recur_def accel_recur_def interp_components_def coef_low_def
  cheb_sum_def iinfo_set_tc_def iinfo_fill_posn_def iinfo_fill_vel_def init_iinfo_def Let_def list_eval

lemmas state_eval = State_def State_compute_def record_index_def blockLoc_def f64_sub_def
  f64_div_def round64_vals round64_tie load_record_def
  uint32_of_float_def state_pairs_def bary_correct_def upd_prefix_def swapBytes64Slice_def
  state_item_def item_quantities_def item_iptr_def scale_prefix_def uint_of_int_def
  quantityDimension_def float64_vals ex_ephem_def ex_file_def State_io_def interp_eval

lemmas pleph_eval = Pleph_def body_list_def mark_body_def adjust_pv_def Pleph_value_def state_eval

lemma ex_State_first:
  "State ex_ephem (3 / 2) (replicate 14 0) (replicate 13 (replicate 6 0)) (replicate 6 0) 1 =
     Inr (ex_ephem_1, replicate 13 (replicate 6 0), replicate 6 0, None)"
  by (simp add: state_eval ex_ephem_1_def)

lemma ex_State_same_record:
  "State_io (State ex_ephem_1 2 (replicate 14 0) (replicate 13 (replicate 6 0)) (replicate 6 0) 1) =
     Inr ([IoSeek 432, IoRead 432 18], None)"
  by (simp add: state_eval ex_ephem_1_def)

lemma ex_State_next_record:
  "State_io (State ex_ephem_1 (5 / 2) (replicate 14 0) (replicate 13 (replicate 6 0)) (replicate 6 0) 1) =
     Inr ([IoSeek 432, IoRead 432 18, IoSeek 576, IoRead 576 18], None)"
  by (simp add: state_eval ex_ephem_1_def)

lemma ex_State_endpoints:
  "State_io (State ex_ephem 0 (replicate 14 0) (replicate 13 (replicate 6 0)) (replicate 6 0) 1) =
     Inr ([IoSeek 288, IoRead 288 18], None)"
  "State_io (State ex_ephem 10 (replicate 14 0) (replicate 13 (replicate 6 0)) (replicate 6 0) 1) =
     Inr ([IoSeek 1584, IoRead 1584 18], None)"
  by (simp_all add: state_eval)

lemma ex_Pleph_mercury:
  "Pleph_value (Pleph ex_ephem (3 / 2) 1 12 1) =
     Inr (Some [10 / 1495978707, 5 / 1495978707, 10 / 1495978707,
                40 / 1495978707, 20 / 498659569, 40 / 1495978707], None)"
  "Pleph_value (Pleph ex_ephem (3 / 2) 12 1 1) =
     Inr (Some [- (10 / 1495978707), - (5 / 1495978707), - (10 / 1495978707),
                - (40 / 1495978707), - (20 / 498659569), - (40 / 1495978707)], None)"
  by (simp_all add: pleph_eval)

lemma ex_Pleph_nutations:
  "Pleph_value (Pleph ex_ephem (3 / 2) 14 1 1) = Inr (Some [1, 1 / 2, 4, 6, 0, 0], None)"
  by (simp add: pleph_eval)

lemma cx_Pleph_nutations:
  "Pleph_value (Pleph cx_nut_ephem (3 / 2) 14 1 1) = Inr (Some [0, 0, 0, 0, 0, 0], None)"
  by (simp add: pleph_eval cx_nut_ephem_def)

lemma big_State_io:
  "State_io (State big_ephem (59652321 / 2) (replicate 14 0) (replicate 13 (replicate 6 0))
               (replicate 6 0) 1) = Inr ([IoSeek 32, IoRead 32 18], None)"
  by (simp add: state_eval big_ephem_def)

lemma ulp_State_first:
  "State ulp_ephem (12999969 / 2) (replicate 14 0) (replicate 13 (replicate 6 0)) (replicate 6 0) 1 =
     Inr (ulp_ephem_1, replicate 13 (replicate 6 0), replicate 6 0, None)"
  by (simp add: state_eval ulp_ephem_def ulp_ephem_1_def ex_ephem_1_def)

lemma ulp_State_next:
  "State_io (State ulp_ephem_1 (12999969 / 2 + 1 / 2 ^ 30) (replicate 14 0)
               (replicate 13 (replicate 6 0)) (replicate 6 0) 1) =
     Inr ([IoSeek 43200144, IoRead 43200144 18], None)"
  by (simp add: state_eval ulp_ephem_def ulp_ephem_1_def ex_ephem_1_def)

lemma ulp_record_index:
  "record_index ulp_ephem (12999969 / 2) = (299999, 1)"
  "record_index ulp_ephem (12999969 / 2 + 1 / 2 ^ 30) = (299999, 1)"
  "blockLoc ulp_ephem (12999969 / 2 + 1 / 2 ^ 30) = 300000"
  "\<lfloor>(12999969 / 2 + 1 / 2 ^ 30 - ephemStart ulp_ephem) / ephemStep ulp_ephem\<rfloor> = 300000"
  "(12999969 / 2 + 1 / 2 ^ 30 - ephemStart ulp_ephem) / ephemStep ulp_ephem \<noteq> 300000"
  by (simp_all add: record_index_def blockLoc_def f64_sub_def f64_div_def round64_vals round64_tie
        uint32_of_float_def trunc_def ulp_ephem_def ex_ephem_def Let_def)

lemma ex_interp_order3:
  "interp init_iinfo [1, 2, 3, 4, 5] (1, 1) 3 1 1 1 [0] = Inr (ii_order3, [6])"
  by (simp add: interp_eval ii_order3_def)

lemma ex_interp_order5:
  "interp ii_order3 [1, 2, 3, 4, 5] (1, 1) 5 1 1 1 [0] = Inr (ii_order5, [15])"
  by (simp add: interp_eval ii_order3_def ii_order5_def)

lemma Pleph_valueD: "Pleph_value r = Inr (v, err) \<Longrightarrow> \<exists>e. r = Inr (e, v, err)"
  by (auto simp: Pleph_value_def split: sum.splits)

lemma State_ioD: "State_io r = Inr (evs, err) \<Longrightarrow> \<exists>e pv nut. r = Inr (e, pv, nut, err) \<and> iolog e = evs"
  by (auto simp: State_io_def split: sum.splits)

lemma ex_interp_quadratic:
  "interp init_iinfo [1, 2, 3] (3 / 4, 1) 3 1 1 2 [0, 0] =
     Inr (\<lparr>posnCoeff = [1, 1 / 2, - (1 / 2), 0, 0, 0, 0, 0, 0, 0, 0, 0, 0, 0, 0, 0, 0, 0],
           velCoeff = [0, 1, 2, 0, 0, 0, 0, 0, 0, 0, 0, 0, 0, 0, 0, 0, 0, 0],
           nPosnAvail = 3, nVelAvail = 3, twot = 1\<rparr>, [1 / 2, 16])"
  by (simp add: interp_eval)

lemma ex_kernel_exact:
  "kernel_exact ex_ephem = 36" "kernel_exact cx_geom_ephem = 25769803800"
  by (simp_all add: kernel_exact_def cx_geom_ephem_def ex_ephem_def list_eval)

section \<open>Special quantities (targets 14 to 17)\<close>

text \<open>
  Claim C1. On the example handle whose nutation row holds two coefficients per component
  and a sub-interval count of zero, \<open>Pleph\<close> for target 14 (nutations), centre 1, at epoch 1.5
  does not return \<open>ErrQuantityNotInEphemeris\<close>: it returns six zeros with a \<open>nil\<close> error.
  \<open>Pleph\<close> tests the number of coefficients of the row (column 1), which is positive here, and
  in \<open>State\<close> none of the granularities 1, 2, 4, 8 equals the sub-interval count of the row, so
  nothing is written to the zeroed buffer.
\<close>

theorem Pleph_zero_filled_success:
  "ipt cx_nut_ephem ! 11 ! 1 = 2 \<and> ipt cx_nut_ephem ! 11 ! 2 = 0 \<and>
   Pleph_value (Pleph cx_nut_ephem (3 / 2) 14 1 1) = Inr (Some [0, 0, 0, 0, 0, 0], None)"
  using cx_Pleph_nutations by (simp add: cx_nut_ephem_def ex_ephem_def list_eval)

section \<open>Record reloads\<close>

text \<open>
  Claim C2. Let two calls of \<open>State\<close> follow each other on one handle, both at epochs inside
  the range and both returning. The second call seeks exactly when its record number differs
  from that of the first: with equal record numbers it does no seek and no read; otherwise
  it does exactly one seek, followed by exactly one read of the whole cache buffer unless
  the seek fails. The record number of an epoch is the one \<open>State\<close> computes from \<open>blockLoc\<close>,
  the \<open>float64\<close> quotient of the \<open>float64\<close> difference \<open>epoch - start\<close> by the step: for
  \<open>0 \<le> blockLoc < 2^32\<close> it is \<open>floor(blockLoc)\<close>, stepped back by one when \<open>blockLoc\<close> is
  a whole number other than zero. \<open>blockLoc\<close> is not negative for an epoch from the start on
  and a positive step.
\<close>

theorem State_reload:
  assumes c1: "State e0 et1 list1 pv1 nut1 bary1 = Inr (eA, pvA, nutA, errA)"
    and r1: "ephemStart e0 \<le> et1" "et1 \<le> ephemEnd e0"
    and c2: "State eA et2 list2 pv2 nut2 bary2 = Inr (eB, pvB, nutB, errB)"
    and r2: "ephemStart e0 \<le> et2" "et2 \<le> ephemEnd e0"
  shows "(\<exists>evs. iolog eB = iolog eA @ evs \<and>
            (if fst (record_index e0 et2) = fst (record_index e0 et1) then evs = []
             else \<exists>off. evs = (if errB = Some ErrFileSeek then [IoSeek off]
                               else [IoSeek off, IoRead off (length (cache e0))]))) \<and>
         (\<forall>et. 0 \<le> blockLoc e0 et \<and> blockLoc e0 et < 2 ^ 32 \<longrightarrow>
            fst (record_index e0 et) =
              (let b = blockLoc e0 et
               in if b = of_int \<lfloor>b\<rfloor> \<and> \<lfloor>b\<rfloor> \<noteq> 0 then word_of_int (\<lfloor>b\<rfloor> - 1)
                  else word_of_int \<lfloor>b\<rfloor>)) \<and>
         (\<forall>et. ephemStart e0 \<le> et \<and> 0 < ephemStep e0 \<longrightarrow> 0 \<le> blockLoc e0 et)"
proof -
  note f1 = State_frame [OF c1 r1]
  have r2': "ephemStart eA \<le> et2" "et2 \<le> ephemEnd eA" using r2 f1 by simp_all
  note f2 = State_frame [OF c2 r2']
  have ri: "record_index eA et2 = record_index e0 et2"
    by (rule record_index_cong) (simp_all add: f1)
  define nr where "nr = fst (record_index e0 et2)"
  define off where "off = uint ((nr + 2) * recsize eA)"
  have se: "(errB = Some ErrFileSeek) = (nr \<noteq> fst (record_index e0 et1) \<and> \<not> seekable (ifile eA) off)"
    using State_seek_error [OF c2 r2'] by (simp add: ri f1 nr_def off_def)
  have lg: "iolog eB = iolog eA @ reload_events eA nr"
    using f2(8) ri by (simp add: nr_def)
  have ev: "reload_events eA nr =
              (if nr = fst (record_index e0 et1) then []
               else if errB = Some ErrFileSeek then [IoSeek off]
               else [IoSeek off, IoRead off (length (cache e0))])"
    using se by (simp add: reload_events_def f1 Let_def off_def)
  have a: "\<exists>evs. iolog eB = iolog eA @ evs \<and>
            (if fst (record_index e0 et2) = fst (record_index e0 et1) then evs = []
             else \<exists>off. evs = (if errB = Some ErrFileSeek then [IoSeek off]
                               else [IoSeek off, IoRead off (length (cache e0))]))"
  proof (intro exI conjI)
    show "iolog eB = iolog eA @ reload_events eA nr" by (rule lg)
    show "if fst (record_index e0 et2) = fst (record_index e0 et1) then reload_events eA nr = []
          else \<exists>off. reload_events eA nr =
                 (if errB = Some ErrFileSeek then [IoSeek off]
                  else [IoSeek off, IoRead off (length (cache e0))])"
      unfolding ev nr_def [symmetric] by auto
  qed
  have b: "fst (record_index e0 et) =
              (let b = blockLoc e0 et
               in if b = of_int \<lfloor>b\<rfloor> \<and> \<lfloor>b\<rfloor> \<noteq> 0 then word_of_int (\<lfloor>b\<rfloor> - 1)
                  else word_of_int \<lfloor>b\<rfloor>)"
    if "0 \<le> blockLoc e0 et" "blockLoc e0 et < 2 ^ 32" for et
    using record_index_floor [OF that] by (simp add: Let_def)
  show ?thesis using a b blockLoc_nonneg [of e0] by blast
qed

text \<open>
  After a call at epoch 1.5, a call at 2.5 seeks and reads once, and a call at 2.0 does no
  I/O. On the handle with records of 32 days, after a call at epoch \<open>6499984.5\<close> a call at
  the next \<open>float64\<close> does no I/O: the exact quotient has floor 300000, the \<open>float64\<close>
  quotient is 300000, and the record number is 299999 as for the first call.
\<close>

theorem State_reload_witness:
  "(\<exists>off. State_io (State ex_ephem_1 (5 / 2) (replicate 14 0) (replicate 13 (replicate 6 0))
                     (replicate 6 0) 1) =
            Inr (iolog ex_ephem_1 @ [IoSeek off, IoRead off 18], None)) \<and>
   State_io (State ex_ephem_1 2 (replicate 14 0) (replicate 13 (replicate 6 0))
              (replicate 6 0) 1) = Inr (iolog ex_ephem_1, None) \<and>
   State ulp_ephem (12999969 / 2) (replicate 14 0) (replicate 13 (replicate 6 0))
     (replicate 6 0) 1 = Inr (ulp_ephem_1, replicate 13 (replicate 6 0), replicate 6 0, None) \<and>
   State_io (State ulp_ephem_1 (12999969 / 2 + 1 / 2 ^ 30) (replicate 14 0)
               (replicate 13 (replicate 6 0)) (replicate 6 0) 1) =
     Inr (iolog ulp_ephem_1, None) \<and>
   \<lfloor>(12999969 / 2 + 1 / 2 ^ 30 - ephemStart ulp_ephem) / ephemStep ulp_ephem\<rfloor> = 300000 \<and>
   blockLoc ulp_ephem (12999969 / 2 + 1 / 2 ^ 30) = 300000 \<and>
   fst (record_index ulp_ephem (12999969 / 2 + 1 / 2 ^ 30)) = 299999"
proof -
  have r: "ephemStart ex_ephem \<le> 3 / 2" "3 / 2 \<le> ephemEnd ex_ephem"
    "ephemStart ex_ephem \<le> 5 / 2" "5 / 2 \<le> ephemEnd ex_ephem"
    "ephemStart ex_ephem \<le> 2" "2 \<le> ephemEnd ex_ephem"
    by (simp_all add: ex_ephem_def)
  have ru: "ephemStart ulp_ephem \<le> 12999969 / 2" "12999969 / 2 \<le> ephemEnd ulp_ephem"
    "ephemStart ulp_ephem \<le> 12999969 / 2 + 1 / 2 ^ 30"
    "12999969 / 2 + 1 / 2 ^ 30 \<le> ephemEnd ulp_ephem"
    by (simp_all add: ulp_ephem_def ex_ephem_def)
  obtain eB pvB nutB where B: "State ex_ephem_1 (5 / 2) (replicate 14 0)
       (replicate 13 (replicate 6 0)) (replicate 6 0) 1 = Inr (eB, pvB, nutB, None)"
    using State_ioD [OF ex_State_next_record] by blast
  obtain eC pvC nutC where C: "State ex_ephem_1 2 (replicate 14 0)
       (replicate 13 (replicate 6 0)) (replicate 6 0) 1 = Inr (eC, pvC, nutC, None)"
    using State_ioD [OF ex_State_same_record] by blast
  obtain eD pvD nutD where D: "State ulp_ephem_1 (12999969 / 2 + 1 / 2 ^ 30) (replicate 14 0)
       (replicate 13 (replicate 6 0)) (replicate 6 0) 1 = Inr (eD, pvD, nutD, None)"
    using State_ioD [OF ulp_State_next] by blast
  have i: "fst (record_index ex_ephem (3 / 2)) = 1" "fst (record_index ex_ephem (5 / 2)) = 2"
    "fst (record_index ex_ephem 2) = 1"
    by (simp_all add: record_index_def blockLoc_def f64_sub_def f64_div_def round64_vals
          uint32_of_float_def trunc_def ex_ephem_def Let_def)
  have s: "length (cache ex_ephem) = 18" by (simp add: ex_ephem_def)
  have "\<exists>off. iolog eB = iolog ex_ephem_1 @ [IoSeek off, IoRead off 18]"
    using State_reload [OF ex_State_first r(1,2) B r(3,4)] by (auto simp: i s)
  then have a: "\<exists>off. State_io (State ex_ephem_1 (5 / 2) (replicate 14 0)
                     (replicate 13 (replicate 6 0)) (replicate 6 0) 1) =
            Inr (iolog ex_ephem_1 @ [IoSeek off, IoRead off 18], None)"
    by (auto simp: B State_io_def)
  have "iolog eC = iolog ex_ephem_1"
    using State_reload [OF ex_State_first r(1,2) C r(5,6)] by (auto simp: i)
  then have b: "State_io (State ex_ephem_1 2 (replicate 14 0) (replicate 13 (replicate 6 0))
              (replicate 6 0) 1) = Inr (iolog ex_ephem_1, None)"
    by (simp add: C State_io_def)
  note th = State_reload [OF ulp_State_first ru(1,2) D ru(3,4)]
  have "iolog eD = iolog ulp_ephem_1"
    using th ulp_record_index(1,2) by auto
  then have c: "State_io (State ulp_ephem_1 (12999969 / 2 + 1 / 2 ^ 30) (replicate 14 0)
               (replicate 13 (replicate 6 0)) (replicate 6 0) 1) = Inr (iolog ulp_ephem_1, None)"
    using D by (simp add: State_io_def)
  have d: "fst (record_index ulp_ephem (12999969 / 2 + 1 / 2 ^ 30)) = 299999"
    using th ulp_record_index(3) by (simp add: Let_def)
  show ?thesis using a b c d ulp_State_first ulp_record_index(3,4) by blast
qed

text \<open>
  Epochs 1.5 and 2.0: the floor changes from 1 to 2, and the second call does no I/O, since
  epoch 2.0 is the end of record 1.
\<close>

theorem State_no_reload_though_floor_changes:
  "\<lfloor>(2 - ephemStart ex_ephem) / ephemStep ex_ephem\<rfloor> \<noteq>
     \<lfloor>(3 / 2 - ephemStart ex_ephem) / ephemStep ex_ephem\<rfloor> \<and>
   State ex_ephem (3 / 2) (replicate 14 0) (replicate 13 (replicate 6 0)) (replicate 6 0) 1 =
     Inr (ex_ephem_1, replicate 13 (replicate 6 0), replicate 6 0, None) \<and>
   State_io (State ex_ephem_1 2 (replicate 14 0) (replicate 13 (replicate 6 0))
              (replicate 6 0) 1) = Inr (iolog ex_ephem_1, None)"
  using ex_State_first ex_State_same_record by (simp add: ex_ephem_def ex_ephem_1_def)

section \<open>Antisymmetry of the relative state\<close>

text \<open>
  Claim C3. For body codes \<open>t\<close> and \<open>c\<close> in 1..13, \<open>t \<noteq> c\<close>, any epoch and any handle: if
  \<open>Pleph\<close> for \<open>(t, c)\<close> succeeds with the vector \<open>r\<close>, then \<open>Pleph\<close> for \<open>(c, t)\<close> on the same
  state of the handle succeeds with the componentwise negation of \<open>r\<close> (in the arithmetic of
  the reals) and leaves the same handle. When the interpolation info of the handle satisfies
  the invariant of every info reached from opening, \<open>Pleph\<close> for \<open>(c, t)\<close> called next, on the
  handle as the first call left it, succeeds with the negation of \<open>r\<close> as well: the record is
  in the cache, the Sun's state is kept for the epoch, and the cached polynomial terms do not
  change what \<open>interp\<close> writes. The request list is the same for both orders, and the
  adjustments of the body table do not depend on the order.
\<close>

theorem Pleph_antisymmetric:
  assumes t: "1 \<le> t" "t \<le> 13" and c: "1 \<le> c" "c \<le> 13" and ne: "t \<noteq> c"
    and r1: "Pleph ephem et t c cv = Inr (e1, Some r1, None)"
  shows "Pleph ephem et c t cv = Inr (e1, Some (map uminus r1), None) \<and>
         (iinfo_inv (iinfo ephem) \<longrightarrow>
            (\<exists>e2. Pleph e1 et c t cv = Inr (e2, Some (map uminus r1), None)))"
proof -
  define lv :: int where "lv = (if cv \<noteq> 0 then 2 else 1)"
  define m where "m = uint_of_int (lv * 3)"
  define list where "list = body_list t c lv"
  have sym: "body_list c t lv = list"
    using body_list_sym [of c t lv] t c by (simp add: list_def)
  define S where "S = (\<lambda>e. State e et list (replicate 13 (replicate 6 0)) (replicate 6 0) 1)"
  have p1: "Pleph ephem et t c cv =
           (case S ephem of
              Inl p \<Rightarrow> Inl p
            | Inr (ephem1, pv1, rrd1, Some err) \<Rightarrow> Inr (ephem1, Some rrd1, Some err)
            | Inr (ephem1, pv1, rrd1, None) \<Rightarrow>
                (case adjust_pv ephem1 t c list pv1 of
                   Inl p \<Rightarrow> Inl p
                 | Inr pv2 \<Rightarrow>
                     (if length rrd1 < m \<or> length (pv2 ! nat (t - 1)) < m
                            \<or> length (pv2 ! nat (c - 1)) < m
                         then Inl PanicIndex
                         else Inr (ephem1,
                                   Some (map2 (-) (take m (pv2 ! nat (t - 1)))
                                           (take m (pv2 ! nat (c - 1))) @ drop m rrd1),
                                   None))))"
    unfolding Pleph_body [OF t c ne] S_def list_def lv_def m_def Let_def ..
  have ne': "c \<noteq> t" using ne by simp
  have p2: "Pleph e et c t cv =
           (case S e of
              Inl p \<Rightarrow> Inl p
            | Inr (ephem1, pv1, rrd1, Some err) \<Rightarrow> Inr (ephem1, Some rrd1, Some err)
            | Inr (ephem1, pv1, rrd1, None) \<Rightarrow>
                (case adjust_pv ephem1 t c list pv1 of
                   Inl p \<Rightarrow> Inl p
                 | Inr pv2 \<Rightarrow>
                     (if length rrd1 < m \<or> length (pv2 ! nat (c - 1)) < m
                            \<or> length (pv2 ! nat (t - 1)) < m
                         then Inl PanicIndex
                         else Inr (ephem1,
                                   Some (map2 (-) (take m (pv2 ! nat (c - 1)))
                                           (take m (pv2 ! nat (t - 1))) @ drop m rrd1),
                                   None))))" for e
    unfolding Pleph_body [OF c t ne'] lv_def [symmetric] sym S_def
      m_def [symmetric] Let_def adjust_pv_sym [of _ c t] ..
  obtain ea pv1 rrd1 where S: "S ephem = Inr (ea, pv1, rrd1, None)"
    using r1 by (auto simp: p1 split: sum.splits prod.splits option.splits)
  obtain pv2 where a: "adjust_pv ea t c list pv1 = Inr pv2"
    using r1 by (auto simp: p1 S split: sum.splits)
  have z: "list ! 10 = 0" "list ! 11 = 0" "list ! 12 = 0" "list ! 13 = 0"
    by (simp_all add: list_def body_list_special)
  have rrd: "rrd1 = replicate 6 0"
    using State_nut [OF z] S unfolding S_def by blast
  have len: "\<not> (length rrd1 < m \<or> length (pv2 ! nat (t - 1)) < m \<or> length (pv2 ! nat (c - 1)) < m)"
    and v1: "r1 = map2 (-) (take m (pv2 ! nat (t - 1))) (take m (pv2 ! nat (c - 1))) @ drop m rrd1"
    and ea: "e1 = ea"
    using r1 by (auto simp: p1 S a split: if_splits)
  have "drop m rrd1 = map uminus (drop m rrd1)"
    unfolding rrd by (simp add: list_eq_iff_nth_eq)
  then have neg: "map2 (-) (take m (pv2 ! nat (c - 1))) (take m (pv2 ! nat (t - 1))) @ drop m rrd1 =
                  map uminus r1"
    unfolding v1 using map2_minus_swap [of "take m (pv2 ! nat (c - 1))"] by simp
  have same: "Pleph ephem et c t cv = Inr (e1, Some (map uminus r1), None)"
    using len neg by (auto simp: p2 S a ea)
  have again: "\<exists>e2. Pleph e1 et c t cv = Inr (e2, Some (map uminus r1), None)"
    if inv: "iinfo_inv (iinfo ephem)"
  proof -
    from State_again [OF inv S [unfolded S_def]] obtain e2 where
      S2: "S e1 = Inr (e2, pv1, rrd1, None)" and fr: "pvsun e2 = pvsun ea" "emrat e2 = emrat ea"
      unfolding S_def ea by blast
    have a2: "adjust_pv e2 t c list pv1 = Inr pv2"
      using adjust_pv_cong [OF fr] a by simp
    have "Pleph e1 et c t cv = Inr (e2, Some (map uminus r1), None)"
      using len neg by (auto simp: p2 S2 a2)
    then show ?thesis by blast
  qed
  show ?thesis using same again by blast
qed

text \<open>
  Mercury relative to the barycentre at epoch 1.5, then the barycentre relative to Mercury, on
  the handle as opened and on the handle the first call left.
\<close>

theorem Pleph_antisymmetric_witness:
  "Pleph_value (Pleph ex_ephem (3 / 2) 12 1 1) =
     Inr (Some (map uminus [10 / 1495978707, 5 / 1495978707, 10 / 1495978707,
                40 / 1495978707, 20 / 498659569, 40 / 1495978707]), None) \<and>
   (\<exists>e1 e2. Pleph ex_ephem (3 / 2) 1 12 1 =
              Inr (e1, Some [10 / 1495978707, 5 / 1495978707, 10 / 1495978707,
                             40 / 1495978707, 20 / 498659569, 40 / 1495978707], None) \<and>
            Pleph e1 (3 / 2) 12 1 1 =
              Inr (e2, Some (map uminus [10 / 1495978707, 5 / 1495978707, 10 / 1495978707,
                                         40 / 1495978707, 20 / 498659569, 40 / 1495978707]), None))"
proof -
  obtain e1 where a: "Pleph ex_ephem (3 / 2) 1 12 1 =
      Inr (e1, Some [10 / 1495978707, 5 / 1495978707, 10 / 1495978707,
                40 / 1495978707, 20 / 498659569, 40 / 1495978707], None)"
    using Pleph_valueD [OF ex_Pleph_mercury(1)] by blast
  have c: "(1::int) \<le> 1" "(1::int) \<le> 13" "(1::int) \<le> 12" "(12::int) \<le> 13" "(1::int) \<noteq> 12"
    by simp_all
  have inv: "iinfo_inv (iinfo ex_ephem)" by (simp add: ex_ephem_def init_iinfo_inv)
  note th = Pleph_antisymmetric [OF c a]
  from th inv obtain e2 where b: "Pleph e1 (3 / 2) 12 1 1 =
      Inr (e2, Some (map uminus [10 / 1495978707, 5 / 1495978707, 10 / 1495978707,
                40 / 1495978707, 20 / 498659569, 40 / 1495978707]), None)"
    by blast
  have "Pleph_value (Pleph ex_ephem (3 / 2) 12 1 1) =
     Inr (Some (map uminus [10 / 1495978707, 5 / 1495978707, 10 / 1495978707,
                40 / 1495978707, 20 / 498659569, 40 / 1495978707]), None)"
    using th by (simp add: Pleph_value_def)
  then show ?thesis using a b by blast
qed

section \<open>Equal target and centre\<close>

text \<open>
  Claim C4. For every epoch and every pair of equal body codes, in or out of the valid
  ranges, \<open>Pleph\<close> returns the zero vector with a \<open>nil\<close> error and leaves the handle as it
  was: no seek, no read (the log of the handle is unchanged), and no \<open>ErrInvalidIndex\<close>.
\<close>

theorem Pleph_same_body_zero:
  "Pleph ephem et t t calcVelocity = Inr (ephem, Some [0, 0, 0, 0, 0, 0], None)"
  by (simp add: Pleph_def Let_def numeral_eq_Suc)

section \<open>Epochs outside the range\<close>

text \<open>
  Claim C5. For an epoch strictly below \<open>ephemStart\<close> or strictly above \<open>ephemEnd\<close>, \<open>State\<close>
  returns \<open>ErrOutsideRange\<close> and leaves the handle (record cache, Sun cache, log of seeks and
  reads), \<open>pv\<close> and \<open>nut\<close> as they were. For an epoch in the closed range, the end points
  included, \<open>State\<close> never returns \<open>ErrOutsideRange\<close>.
\<close>

theorem State_outside_range:
  "(et < ephemStart ephem \<or> ephemEnd ephem < et \<longrightarrow>
      State ephem et list pv nut bary = Inr (ephem, pv, nut, Some ErrOutsideRange)) \<and>
   (ephemStart ephem \<le> et \<and> et \<le> ephemEnd ephem \<longrightarrow>
      (\<forall>ephem1 pv1 nut1.
         State ephem et list pv nut bary \<noteq> Inr (ephem1, pv1, nut1, Some ErrOutsideRange)))"
proof (intro conjI impI allI)
  assume "et < ephemStart ephem \<or> ephemEnd ephem < et"
  then show "State ephem et list pv nut bary = Inr (ephem, pv, nut, Some ErrOutsideRange)"
    by (simp add: State_def)
next
  fix ephem1 pv1 nut1
  assume r: "ephemStart ephem \<le> et \<and> et \<le> ephemEnd ephem"
  show "State ephem et list pv nut bary \<noteq> Inr (ephem1, pv1, nut1, Some ErrOutsideRange)"
  proof
    assume "State ephem et list pv nut bary = Inr (ephem1, pv1, nut1, Some ErrOutsideRange)"
    then show False
    proof (cases rule: State_cases)
      case range
      then show ?thesis using r by auto
    next
      case (load lerr)
      then show ?thesis using load_record_error by blast
    next
      case (compute e1)
      then show ?thesis by (elim State_compute_cases) simp
    qed
  qed
qed

text \<open>Epochs -1 and 11 are refused; epochs 0 and 10 load records 0 and 9.\<close>

theorem State_outside_range_witness:
  "State ex_ephem (- 1) (replicate 14 0) (replicate 13 (replicate 6 0)) (replicate 6 0) 1 =
     Inr (ex_ephem, replicate 13 (replicate 6 0), replicate 6 0, Some ErrOutsideRange) \<and>
   State ex_ephem 11 (replicate 14 0) (replicate 13 (replicate 6 0)) (replicate 6 0) 1 =
     Inr (ex_ephem, replicate 13 (replicate 6 0), replicate 6 0, Some ErrOutsideRange) \<and>
   State_io (State ex_ephem 0 (replicate 14 0) (replicate 13 (replicate 6 0)) (replicate 6 0) 1) =
     Inr ([IoSeek 288, IoRead 288 18], None) \<and>
   State_io (State ex_ephem 10 (replicate 14 0) (replicate 13 (replicate 6 0)) (replicate 6 0) 1) =
     Inr ([IoSeek 1584, IoRead 1584 18], None)"
proof -
  have "- 1 < ephemStart ex_ephem" "ephemEnd ex_ephem < 11" by (simp_all add: ex_ephem_def)
  then show ?thesis
    using State_outside_range [of "- 1" ex_ephem "replicate 14 0" "replicate 13 (replicate 6 0)" "replicate 6 0" 1]
      State_outside_range [of 11 ex_ephem "replicate 14 0" "replicate 13 (replicate 6 0)" "replicate 6 0" 1]
      ex_State_endpoints
    by simp
qed

section \<open>The aborts of the interpolator\<close>

text \<open>
  Claim C6. \<open>interp\<close> panics when the number of coefficients per component is 18
  (\<open>maxCheby\<close>) or more; below 18, it panics when the normalised time \<open>tc\<close> is outside
  \<open>[-1, 1]\<close>. For a fraction in \<open>[0, 1]\<close> and fewer than 18 coefficients, neither of these two
  panics is reached.
\<close>

theorem interp_aborts:
  "(maxCheby \<le> ncf \<longrightarrow> interp ii coef t ncf ncm na velocityFlag posvel = Inl PanicNcf) \<and>
   (ncf < maxCheby \<and> (snd (interp_l_tc na (fst t)) < - 1 \<or> 1 < snd (interp_l_tc na (fst t))) \<longrightarrow>
      interp ii coef t ncf ncm na velocityFlag posvel = Inl PanicTc) \<and>
   (ncf < maxCheby \<and> 0 \<le> fst t \<and> fst t \<le> 1 \<longrightarrow>
      interp ii coef t ncf ncm na velocityFlag posvel \<noteq> Inl PanicNcf \<and>
      interp ii coef t ncf ncm na velocityFlag posvel \<noteq> Inl PanicTc)"
proof (intro conjI impI)
  assume "maxCheby \<le> ncf"
  then show "interp ii coef t ncf ncm na velocityFlag posvel = Inl PanicNcf"
    by (simp add: interp_def Let_def split: prod.splits)
next
  assume "ncf < maxCheby \<and> (snd (interp_l_tc na (fst t)) < - 1 \<or> 1 < snd (interp_l_tc na (fst t)))"
  then show "interp ii coef t ncf ncm na velocityFlag posvel = Inl PanicTc"
    by (auto simp: interp_def Let_def split: prod.splits)
next
  assume a: "ncf < maxCheby \<and> 0 \<le> fst t \<and> fst t \<le> 1"
  then have r: "- 1 \<le> snd (interp_l_tc na (fst t))" "snd (interp_l_tc na (fst t)) \<le> 1"
    using interp_tc_range [of "fst t" na] by auto
  have "p = PanicIndex" if "interp ii coef t ncf ncm na velocityFlag posvel = Inl p" for p
    using that a r
    by (auto simp: interp_def Let_def split: prod.splits sum.splits if_splits
             dest: interp_components_panic)
  then show "interp ii coef t ncf ncm na velocityFlag posvel \<noteq> Inl PanicNcf"
    and "interp ii coef t ncf ncm na velocityFlag posvel \<noteq> Inl PanicTc"
    by auto
qed

theorem interp_aborts_witness:
  "interp init_iinfo [1, 0, 0] (1 / 2, 1) 18 1 1 1 [0] = Inl PanicNcf \<and>
   interp init_iinfo [1, 0, 0] (- (1 / 4), 1) 3 1 1 1 [0] = Inl PanicTc \<and>
   interp init_iinfo [1, 0, 0] (1 / 2, 1) 17 1 1 1 [0] \<noteq> Inl PanicNcf \<and>
   interp init_iinfo [1, 0, 0] (1 / 2, 1) 17 1 1 1 [0] \<noteq> Inl PanicTc"
proof -
  have a: "snd (interp_l_tc 1 (fst (- (1 / 4) :: real, 1 :: real))) < - 1"
    by (simp add: interp_l_tc_def Modf_def trunc_def uint_of_float_def Let_def ceiling_def)
  show ?thesis
    using interp_aborts [where ncf = 18 and ii = init_iinfo and coef = "[1, 0, 0]"
          and t = "(1 / 2, 1)" and ncm = 1 and na = 1 and velocityFlag = 1 and posvel = "[0]"]
      interp_aborts [where ncf = 3 and ii = init_iinfo and coef = "[1, 0, 0]"
          and t = "(- (1 / 4), 1)" and ncm = 1 and na = 1 and velocityFlag = 1 and posvel = "[0]"]
      interp_aborts [where ncf = 17 and ii = init_iinfo and coef = "[1, 0, 0]"
          and t = "(1 / 2, 1)" and ncm = 1 and na = 1 and velocityFlag = 1 and posvel = "[0]"] a
    by (simp add: maxCheby_def)
qed

text \<open>With 18 coefficients, not more than the bound, and fraction 0.5, \<open>interp\<close> panics.\<close>

theorem interp_order_18_aborts:
  "(18::nat) \<le> 18 \<and> (0::real) \<le> 1 / 2 \<and> (1 / 2 :: real) \<le> 1 \<and>
   interp init_iinfo (replicate 18 1) (1 / 2, 1) 18 1 1 1 [0] = Inl PanicNcf"
  by (simp add: interp_def maxCheby_def Let_def split: prod.splits)

section \<open>The seek offset\<close>

text \<open>
  Claim C7. On the example file with thirty million records, \<open>State\<close> at epoch 29826160.5
  computes record number 29826160, whose offset is \<open>(29826160 + 2) * 144 = 4294967328\<close>;
  the seek and the read are at offset 32, the product reduced modulo \<open>2^32\<close>.
\<close>

theorem State_seek_offset_wraps:
  "fst (record_index big_ephem (59652321 / 2)) = 29826160 \<and>
   (29826160 + 2) * uint (recsize big_ephem) = 4294967328 \<and>
   State_io (State big_ephem (59652321 / 2) (replicate 14 0) (replicate 13 (replicate 6 0))
               (replicate 6 0) 1) = Inr ([IoSeek 32, IoRead 32 18], None)"
  using big_State_io
  by (simp add: record_index_def blockLoc_def f64_sub_def f64_div_def round64_vals
        uint32_of_float_def trunc_def big_ephem_def ex_ephem_def Let_def)

section \<open>Polynomial identities\<close>

text \<open>
  Claim C8. From an interpolation info reached from the initial one, a call of \<open>interp\<close> that
  returns has its \<open>tc\<close> in \<open>[-1, 1]\<close> and leaves \<open>T0 = 1\<close> and \<open>T1 = tc\<close>; with three
  coefficients or more \<open>T2 = 2 tc^2 - 1\<close>, and with velocities requested as well
  \<open>T'2 = 4 tc\<close>. Every \<open>tc\<close> in \<open>[-1, 1]\<close> is the normalised time of fraction \<open>(tc + 1) / 2\<close>
  with one sub-interval. On the coefficients \<open>[1, 0, 0]\<close>, one component, one sub-interval,
  fraction 0.5, \<open>interp\<close> stores the position 1.
\<close>

theorem interp_chebyshev_identities:
  assumes inv: "iinfo_inv ii"
    and r: "interp ii coef t ncf ncm na velocityFlag posvel = Inr (ii1, out)"
    and tc: "tc = snd (interp_l_tc na (fst t))"
  shows "- 1 \<le> tc \<and> tc \<le> 1 \<and>
         posnCoeff ii1 ! 0 = 1 \<and> posnCoeff ii1 ! 1 = tc \<and>
         (3 \<le> ncf \<longrightarrow> posnCoeff ii1 ! 2 = 2 * tc\<^sup>2 - 1) \<and>
         (3 \<le> ncf \<and> 2 \<le> velocityFlag \<longrightarrow> velCoeff ii1 ! 2 = 4 * tc) \<and>
         (\<forall>x. - 1 \<le> x \<and> x \<le> 1 \<longrightarrow> snd (interp_l_tc 1 ((x + 1) / 2)) = x) \<and>
         (\<forall>t1 pv. pv \<noteq> [] \<longrightarrow>
            (\<exists>ii2. interp ii [1, 0, 0] (1 / 2, t1) 3 1 1 1 pv = Inr (ii2, pv[0 := 1])))"
proof -
  note c = interp_result_cases [OF r, folded tc]
  note st = interp_steps [OF inv c(2,3,1)]
  note po = interp_polys [OF inv c(2,3,1)]
  have inv1: "iinfo_inv ii1" by (rule interp_inv [OF inv r])
  have p0: "posnCoeff ii1 ! 0 = 1" using iinfo_invD(3) [OF inv1] .
  have p1: "posnCoeff ii1 ! 1 = tc" using c(4) st(3,4) by (simp split: if_splits)
  have p2: "posnCoeff ii1 ! 2 = 2 * tc\<^sup>2 - 1" if "3 \<le> ncf"
    using c(4) po(1) [of 2] po(2) [of 2] that by (simp add: cheb_2 split: if_splits)
  have v2: "velCoeff ii1 ! 2 = 4 * tc" if "3 \<le> ncf" "2 \<le> velocityFlag"
    using c(4) po(3) [of 2] that by (simp add: cheb_2 split: if_splits)
  have unit: "\<exists>ii2. interp ii [1, 0, 0] (1 / 2, t1) 3 1 1 1 pv = Inr (ii2, pv[0 := 1])"
    if "pv \<noteq> []" for t1 pv
  proof -
    have "map_sum id snd (interp ii [1, 0, 0] (1 / 2, t1) 3 1 1 1 pv) = Inr (pv[0 := 1])"
      using interp_eq_stateless [OF inv] stateless_unit_block [OF that] by simp
    then show ?thesis
      by (cases "interp ii [1, 0, 0] (1 / 2, t1) 3 1 1 1 pv") auto
  qed
  show ?thesis
    using c(2,3) p0 p1 p2 v2 unit interp_tc_reach by blast
qed

theorem interp_chebyshev_identities_witness:
  "interp init_iinfo [1, 2, 3] (3 / 4, 1) 3 1 1 2 [0, 0] =
     Inr (\<lparr>posnCoeff = [1, 1 / 2, - (1 / 2), 0, 0, 0, 0, 0, 0, 0, 0, 0, 0, 0, 0, 0, 0, 0],
           velCoeff = [0, 1, 2, 0, 0, 0, 0, 0, 0, 0, 0, 0, 0, 0, 0, 0, 0, 0],
           nPosnAvail = 3, nVelAvail = 3, twot = 1\<rparr>, [1 / 2, 16]) \<and>
   (- (1 / 2) :: real) = 2 * (1 / 2)\<^sup>2 - 1 \<and> (2 :: real) = 4 * (1 / 2) \<and>
   (\<exists>ii2. interp init_iinfo [1, 0, 0] (1 / 2, 1) 3 1 1 1 [0] = Inr (ii2, [1]))"
proof -
  have t: "(1 / 2 :: real) = snd (interp_l_tc 1 (fst (3 / 4 :: real, 1 :: real)))"
    by (simp add: interp_l_tc_def Modf_def trunc_def uint_of_float_def Let_def)
  have "\<exists>ii2. interp init_iinfo [1, 0, 0] (1 / 2, 1) 3 1 1 1 [0] = Inr (ii2, [0][0 := 1])"
    using interp_chebyshev_identities [OF init_iinfo_inv ex_interp_quadratic t] by blast
  then show ?thesis
    using interp_chebyshev_identities [OF init_iinfo_inv ex_interp_quadratic t] ex_interp_quadratic
    by (simp add: power2_eq_square)
qed

section \<open>Transparency of the recurrence cache\<close>

text \<open>
  Claim C9. For every sequence of calls of \<open>interp\<close> on the info of a newly opened ephemeris,
  each call panics or writes exactly as the interpolation without a cache does. A call
  that returns leaves its \<open>tc\<close> in \<open>posnCoeff[1]\<close>; both counts of available terms are reset to
  2 exactly when \<open>tc\<close> differs from the cached \<open>posnCoeff[1]\<close>, and position (velocity) terms
  are then computed whenever fewer than \<open>ncf\<close> are available, so also at an unchanged \<open>tc\<close>
  when more coefficients are requested. The initial \<open>posnCoeff[1] = -2\<close> differs from the \<open>tc\<close>
  of every call that returns.
\<close>

theorem interp_cache_transparent:
  assumes r: "interp ii coef t ncf ncm na velocityFlag posvel = Inr (ii1, out)"
    and len: "length (posnCoeff ii) = maxCheby"
    and tc: "tc = snd (interp_l_tc na (fst t))"
  shows "interp_calls init_iinfo cs = stateless_calls cs \<and>
         posnCoeff ii1 ! 1 = tc \<and>
         nPosnAvail ii1 = (if tc \<noteq> posnCoeff ii ! 1 then max 2 ncf else max (nPosnAvail ii) ncf) \<and>
         nVelAvail ii1 =
           (if velocityFlag \<le> 1 then (if tc \<noteq> posnCoeff ii ! 1 then 2 else nVelAvail ii)
            else if tc \<noteq> posnCoeff ii ! 1 then max 2 ncf else max (nVelAvail ii) ncf) \<and>
         tc \<noteq> posnCoeff init_iinfo ! 1"
  using interp_calls_stateless [OF init_iinfo_inv, of cs] interp_counts [OF r len tc]
  by simp

theorem interp_cache_transparent_witness:
  "interp ii_order3 [1, 2, 3, 4, 5] (1, 1) 5 1 1 1 [0] = Inr (ii_order5, [15]) \<and>
   interp_calls init_iinfo
     [([1, 2, 3, 4, 5], (1, 1), 3, 1, 1, 1, [0]), ([1, 2, 3, 4, 5], (1, 1), 5, 1, 1, 1, [0]),
      ([1, 2, 3, 4, 5], (1 / 4, 1), 5, 1, 1, 2, [0, 0])] =
   stateless_calls
     [([1, 2, 3, 4, 5], (1, 1), 3, 1, 1, 1, [0]), ([1, 2, 3, 4, 5], (1, 1), 5, 1, 1, 1, [0]),
      ([1, 2, 3, 4, 5], (1 / 4, 1), 5, 1, 1, 2, [0, 0])] \<and>
   posnCoeff ii_order5 ! 1 = 1 \<and> nPosnAvail ii_order5 = 5 \<and> nVelAvail ii_order5 = 2"
proof -
  have l: "length (posnCoeff ii_order3) = maxCheby" by (simp add: ii_order3_def maxCheby_def)
  have t: "(1::real) = snd (interp_l_tc 1 (fst (1::real, 1::real)))"
    by (simp add: interp_l_tc_def Modf_def trunc_def uint_of_float_def Let_def)
  note th = interp_cache_transparent [OF ex_interp_order5 l t, where cs =
     "[([1, 2, 3, 4, 5], (1, 1), 3, 1, 1, 1, [0]), ([1, 2, 3, 4, 5], (1, 1), 5, 1, 1, 1, [0]),
       ([1, 2, 3, 4, 5], (1 / 4, 1), 5, 1, 1, 2, [0, 0])]"]
  have v: "posnCoeff ii_order3 ! 1 = 1" "nPosnAvail ii_order3 = 3" "nVelAvail ii_order3 = 2"
    by (simp_all add: ii_order3_def)
  show ?thesis
    using th ex_interp_order5
    by (simp add: v del: interp_calls.simps stateless_calls.simps)
qed

text \<open>
  Two position requests at \<open>tc = 1\<close>, of order 3 and then of order 5: the second finds its
  \<open>tc\<close> cached and computes the terms 3 and 4.
\<close>

theorem interp_recomputes_at_same_tc:
  "interp init_iinfo [1, 2, 3, 4, 5] (1, 1) 3 1 1 1 [0] = Inr (ii_order3, [6]) \<and>
   interp ii_order3 [1, 2, 3, 4, 5] (1, 1) 5 1 1 1 [0] = Inr (ii_order5, [15]) \<and>
   snd (interp_l_tc 1 1) = posnCoeff ii_order3 ! 1 \<and>
   posnCoeff ii_order5 \<noteq> posnCoeff ii_order3"
  using ex_interp_order3 ex_interp_order5
  by (simp add: interp_l_tc_def Modf_def trunc_def uint_of_float_def Let_def
        ii_order3_def ii_order5_def)

section \<open>Record geometry\<close>

text \<open>
  Claim C10. \<open>kernelSize\<close> is \<open>4 + \<Sum> 2 * order * nSubIntervals * dimension\<close> over the 15 IPT
  rows (dimension 2 for row 11, 1 for row 14, 3 otherwise) reduced modulo \<open>2^32\<close>;
  \<open>recsize\<close> is \<open>kernelSize * 4\<close> modulo \<open>2^32\<close> and \<open>ncoeff\<close> is \<open>kernelSize div 2\<close>. When the
  sum is below \<open>2^30\<close> the three are the exact values.
\<close>

theorem init_geometry_sizes:
  "unat (kernelSize (init_geometry ephem)) = kernel_exact ephem mod 2 ^ 32 \<and>
   unat (recsize (init_geometry ephem)) = (unat (kernelSize (init_geometry ephem)) * 4) mod 2 ^ 32 \<and>
   unat (ncoeff (init_geometry ephem)) = unat (kernelSize (init_geometry ephem)) div 2 \<and>
   (kernel_exact ephem < 2 ^ 30 \<longrightarrow>
      unat (kernelSize (init_geometry ephem)) = kernel_exact ephem \<and>
      unat (recsize (init_geometry ephem)) = kernel_exact ephem * 4 \<and>
      unat (ncoeff (init_geometry ephem)) = kernel_exact ephem div 2)"
  using init_geometry_unat [of ephem] by auto

theorem init_geometry_sizes_witness:
  "kernel_exact ex_ephem = 36 \<and>
   unat (kernelSize (init_geometry ex_ephem)) = 36 \<and>
   unat (recsize (init_geometry ex_ephem)) = 144 \<and>
   unat (ncoeff (init_geometry ex_ephem)) = 18"
  using init_geometry_sizes [of ex_ephem] ex_kernel_exact(1) by simp

text \<open>
  With \<open>65536\<close> coefficients in \<open>65536\<close> sub-intervals for Mercury the sum is \<open>25769803800\<close> and
  \<open>kernelSize\<close> is 24.
\<close>

theorem init_geometry_wraps:
  "kernel_exact cx_geom_ephem = 25769803800 \<and>
   unat (kernelSize (init_geometry cx_geom_ephem)) = 24 \<and>
   unat (recsize (init_geometry cx_geom_ephem)) = 96 \<and>
   unat (ncoeff (init_geometry cx_geom_ephem)) = 12"
  using init_geometry_unat [of cx_geom_ephem] ex_kernel_exact(2) by simp

end
